theory Spec2Isabelle
  imports Main "HOL-Library.Sublist"
begin

section \<open>Text\<close>

text \<open>
  A Python \<open>str\<close> is a sequence of Unicode code points; it is modelled as a list of
  natural numbers, so that \<open>length\<close> and \<open>take\<close> count what \<open>len\<close> and slicing count.
  \<open>u ''abc''\<close> is the text of an ASCII literal.
\<close>

type_synonym ustr = "nat list"

abbreviation u :: "string \<Rightarrow> ustr" where
  "u s \<equiv> map of_char s"

text \<open>
  The character classes of \<open>re\<close> on \<open>str\<close> patterns (\<open>\s\<close>, \<open>\d\<close>, \<open>\w\<close>) and of
  \<open>str.strip\<close> are fixed for ASCII; beyond ASCII they are read from the interpreter's
  Unicode database, which is a parameter here.
\<close>

record unicode_db =
  uni_isspace :: "nat \<Rightarrow> bool"
  uni_isalnum :: "nat \<Rightarrow> bool"
  uni_isdecimal :: "nat \<Rightarrow> bool"

definition is_space :: "unicode_db \<Rightarrow> nat \<Rightarrow> bool" where
  "is_space db c =
     (if c < 128 then (9 \<le> c \<and> c \<le> 13) \<or> (28 \<le> c \<and> c \<le> 32) else uni_isspace db c)"

definition is_digit :: "unicode_db \<Rightarrow> nat \<Rightarrow> bool" where
  "is_digit db c = (if c < 128 then 48 \<le> c \<and> c \<le> 57 else uni_isdecimal db c)"

definition is_word :: "unicode_db \<Rightarrow> nat \<Rightarrow> bool" where
  "is_word db c =
     (if c < 128
      then (48 \<le> c \<and> c \<le> 57) \<or> (65 \<le> c \<and> c \<le> 90) \<or> (97 \<le> c \<and> c \<le> 122) \<or> c = 95
      else uni_isalnum db c)"

text \<open>An interpreter whose Unicode database has nothing beyond ASCII, for concrete runs.\<close>

definition ascii :: unicode_db where
  "ascii = \<lparr>uni_isspace = (\<lambda>_. False), uni_isalnum = (\<lambda>_. False), uni_isdecimal = (\<lambda>_. False)\<rparr>"

text \<open>\<open>s.strip()\<close>: leading and trailing whitespace removed.\<close>

definition strip :: "unicode_db \<Rightarrow> ustr \<Rightarrow> ustr" where
  "strip db s = rev (dropWhile (is_space db) (rev (dropWhile (is_space db) s)))"

text \<open>\<open>str(n)\<close> for an integer: its decimal digits.\<close>

fun str_nat :: "nat \<Rightarrow> ustr" where
  "str_nat n = (if n < 10 then [48 + n] else str_nat (n div 10) @ [48 + n mod 10])"

declare str_nat.simps [simp del]



section \<open>The task-line pattern\<close>

text \<open>
  \<^verbatim>\<open>re.compile(r'- \[([ x])\] TASK-(\w+)-(\d+):\s*(.+?)(?:\s+\[(\w+)\])?$', re.MULTILINE)\<close>

  The backtracking matcher of \<open>re\<close> is written in continuation style: each piece of the
  pattern takes the matcher of the rest of the pattern and the remaining text, and returns
  the first successful match in the order in which \<open>re\<close> tries the alternatives. A greedy
  repetition tries the longest run first, a lazy one the shortest, an optional group is
  tried before it is skipped.
\<close>

fun lit :: "ustr \<Rightarrow> (ustr \<Rightarrow> 'r option) \<Rightarrow> ustr \<Rightarrow> 'r option" where
  "lit [] k s = k s"
| "lit (p # ps) k [] = None"
| "lit (p # ps) k (c # s) = (if c = p then lit ps k s else None)"

fun one :: "(nat \<Rightarrow> bool) \<Rightarrow> (nat \<Rightarrow> ustr \<Rightarrow> 'r option) \<Rightarrow> ustr \<Rightarrow> 'r option" where
  "one P k [] = None"
| "one P k (c # s) = (if P c then k c s else None)"

text \<open>\<open>X*\<close>, greedy, for a character class \<open>X\<close>; \<open>acc\<close> is the text consumed so far.\<close>

fun star_greedy ::
  "(nat \<Rightarrow> bool) \<Rightarrow> (ustr \<Rightarrow> ustr \<Rightarrow> 'r option) \<Rightarrow> ustr \<Rightarrow> ustr \<Rightarrow> 'r option" where
  "star_greedy P k acc [] = k acc []"
| "star_greedy P k acc (c # s) =
     (if P c
      then (case star_greedy P k (acc @ [c]) s of Some r \<Rightarrow> Some r | None \<Rightarrow> k acc (c # s))
      else k acc (c # s))"

fun plus_greedy :: "(nat \<Rightarrow> bool) \<Rightarrow> (ustr \<Rightarrow> ustr \<Rightarrow> 'r option) \<Rightarrow> ustr \<Rightarrow> 'r option" where
  "plus_greedy P k [] = None"
| "plus_greedy P k (c # s) = (if P c then star_greedy P k [c] s else None)"

text \<open>\<open>X*?\<close> and \<open>X+?\<close>, lazy.\<close>

fun star_lazy ::
  "(nat \<Rightarrow> bool) \<Rightarrow> (ustr \<Rightarrow> ustr \<Rightarrow> 'r option) \<Rightarrow> ustr \<Rightarrow> ustr \<Rightarrow> 'r option" where
  "star_lazy P k acc [] = k acc []"
| "star_lazy P k acc (c # s) =
     (case k acc (c # s) of
        Some r \<Rightarrow> Some r
      | None \<Rightarrow> if P c then star_lazy P k (acc @ [c]) s else None)"

fun plus_lazy :: "(nat \<Rightarrow> bool) \<Rightarrow> (ustr \<Rightarrow> ustr \<Rightarrow> 'r option) \<Rightarrow> ustr \<Rightarrow> 'r option" where
  "plus_lazy P k [] = None"
| "plus_lazy P k (c # s) = (if P c then star_lazy P k [c] s else None)"

text \<open>\<open>(?:X)?\<close>: \<open>body\<close> is the group followed by the rest of the pattern, \<open>k\<close> the rest alone.\<close>

definition opt_greedy :: "(ustr \<Rightarrow> 'r option) \<Rightarrow> (ustr \<Rightarrow> 'r option) \<Rightarrow> ustr \<Rightarrow> 'r option" where
  "opt_greedy body k s = (case body s of Some r \<Rightarrow> Some r | None \<Rightarrow> k s)"

text \<open>\<open>$\<close> under \<open>re.MULTILINE\<close>: at the end of the text or just before a line feed.\<close>

fun eol :: "(ustr \<Rightarrow> 'r option) \<Rightarrow> ustr \<Rightarrow> 'r option" where
  "eol k [] = k []"
| "eol k (c # s) = (if c = 10 then k (c # s) else None)"

text \<open>The groups of a match; \<open>group5\<close> is \<open>None\<close> when the optional group took no part.\<close>

record rmatch =
  group1 :: nat
  group2 :: ustr
  group3 :: ustr
  group4 :: ustr
  group5 :: "ustr option"

text \<open>\<^verbatim>\<open>\s+\[(\w+)\]$\<close>\<close>

definition tag_group :: "unicode_db \<Rightarrow> (ustr \<Rightarrow> ustr \<Rightarrow> 'r option) \<Rightarrow> ustr \<Rightarrow> 'r option" where
  "tag_group db k =
     plus_greedy (is_space db) (\<lambda>_.
     lit (u ''['') (plus_greedy (is_word db) (\<lambda>e.
     lit (u '']'') (eol (k e)))))"

text \<open>\<^verbatim>\<open>\s*(.+?)(?:\s+\[(\w+)\])?$\<close>; the dot matches every character but the line feed.\<close>

definition task_tail ::
  "unicode_db \<Rightarrow> (ustr \<Rightarrow> ustr option \<Rightarrow> ustr \<Rightarrow> 'r option) \<Rightarrow> ustr \<Rightarrow> 'r option" where
  "task_tail db k =
     star_greedy (is_space db) (\<lambda>_.
     plus_lazy (\<lambda>x. x \<noteq> 10) (\<lambda>d.
     opt_greedy (tag_group db (\<lambda>e. k d (Some e))) (eol (k d None)))) []"

text \<open>\<^verbatim>\<open>- \[([ x])\] TASK-(\w+)-(\d+):\<close>\<close>

definition task_head ::
  "unicode_db \<Rightarrow> (nat \<Rightarrow> ustr \<Rightarrow> ustr \<Rightarrow> ustr \<Rightarrow> 'r option) \<Rightarrow> ustr \<Rightarrow> 'r option" where
  "task_head db k =
     lit (u ''- ['') (one (\<lambda>x. x = 32 \<or> x = 120) (\<lambda>a.
     lit (u ''] TASK-'') (plus_greedy (is_word db) (\<lambda>b.
     lit (u ''-'') (plus_greedy (is_digit db) (\<lambda>c.
     lit (u '':'') (k a b c)))))))"

text \<open>A match of the whole pattern at the start of the text: its groups and the text after it.\<close>

definition task_pattern :: "unicode_db \<Rightarrow> ustr \<Rightarrow> (rmatch \<times> ustr) option" where
  "task_pattern db =
     task_head db (\<lambda>a b c. task_tail db (\<lambda>d e rest.
       Some (\<lparr>group1 = a, group2 = b, group3 = c, group4 = d, group5 = e\<rparr>, rest)))"


subsection \<open>What a successful match tells about the text\<close>

lemma lit_eq: "lit p k s = (if prefix p s then k (drop (length p) s) else None)"
  by (induction p k s rule: lit.induct) auto

lemma lit_Some: "lit p k s = Some r \<Longrightarrow> \<exists>t. s = p @ t \<and> k t = Some r"
  by (auto simp: lit_eq prefix_def split: if_splits)

lemma one_Some: "one P k s = Some r \<Longrightarrow> \<exists>c t. s = c # t \<and> P c \<and> k c t = Some r"
  by (cases s) (auto split: if_splits)

lemma star_greedy_Some:
  "star_greedy P k acc s = Some r \<Longrightarrow> \<exists>w t. s = w @ t \<and> list_all P w \<and> k (acc @ w) t = Some r"
proof (induction s arbitrary: acc)
  case Nil
  then show ?case by simp
next
  case (Cons c s)
  show ?case
  proof (cases "P c \<and> star_greedy P k (acc @ [c]) s \<noteq> None")
    case True
    with Cons.prems have "star_greedy P k (acc @ [c]) s = Some r" by auto
    from Cons.IH[OF this] obtain w t where "s = w @ t" "list_all P w" "k ((acc @ [c]) @ w) t = Some r"
      by blast
    with True have "c # s = (c # w) @ t \<and> list_all P (c # w) \<and> k (acc @ (c # w)) t = Some r" by simp
    then show ?thesis by blast
  next
    case False
    with Cons.prems have "k acc (c # s) = Some r" by (auto split: if_splits option.splits)
    then have "c # s = [] @ (c # s) \<and> list_all P [] \<and> k (acc @ []) (c # s) = Some r" by simp
    then show ?thesis by blast
  qed
qed

lemma plus_greedy_Some:
  "plus_greedy P k s = Some r \<Longrightarrow> \<exists>w t. s = w @ t \<and> w \<noteq> [] \<and> list_all P w \<and> k w t = Some r"
proof (cases s)
  case Nil
  assume "plus_greedy P k s = Some r"
  with Nil show ?thesis by simp
next
  case (Cons c s')
  assume a: "plus_greedy P k s = Some r"
  with Cons have pc: "P c" and "star_greedy P k [c] s' = Some r" by (auto split: if_splits)
  from star_greedy_Some[OF this(2)] obtain w t where "s' = w @ t" "list_all P w" "k ([c] @ w) t = Some r"
    by blast
  with Cons pc have "s = (c # w) @ t \<and> c # w \<noteq> [] \<and> list_all P (c # w) \<and> k (c # w) t = Some r" by simp
  then show ?thesis by blast
qed

lemma star_lazy_Some:
  "star_lazy P k acc s = Some r \<Longrightarrow> \<exists>w t. s = w @ t \<and> list_all P w \<and> k (acc @ w) t = Some r"
proof (induction s arbitrary: acc)
  case Nil
  then show ?case by simp
next
  case (Cons c s)
  show ?case
  proof (cases "k acc (c # s)")
    case (Some r')
    with Cons.prems have "k acc (c # s) = Some r" by simp
    then have "c # s = [] @ (c # s) \<and> list_all P [] \<and> k (acc @ []) (c # s) = Some r" by simp
    then show ?thesis by blast
  next
    case None
    with Cons.prems have pc: "P c" and "star_lazy P k (acc @ [c]) s = Some r" by (auto split: if_splits)
    from Cons.IH[OF this(2)] obtain w t where "s = w @ t" "list_all P w" "k ((acc @ [c]) @ w) t = Some r"
      by blast
    with pc have "c # s = (c # w) @ t \<and> list_all P (c # w) \<and> k (acc @ (c # w)) t = Some r" by simp
    then show ?thesis by blast
  qed
qed

lemma plus_lazy_Some:
  "plus_lazy P k s = Some r \<Longrightarrow> \<exists>w t. s = w @ t \<and> w \<noteq> [] \<and> list_all P w \<and> k w t = Some r"
proof (cases s)
  case Nil
  assume "plus_lazy P k s = Some r"
  with Nil show ?thesis by simp
next
  case (Cons c s')
  assume a: "plus_lazy P k s = Some r"
  with Cons have pc: "P c" and "star_lazy P k [c] s' = Some r" by (auto split: if_splits)
  from star_lazy_Some[OF this(2)] obtain w t where "s' = w @ t" "list_all P w" "k ([c] @ w) t = Some r"
    by blast
  with Cons pc have "s = (c # w) @ t \<and> c # w \<noteq> [] \<and> list_all P (c # w) \<and> k (c # w) t = Some r" by simp
  then show ?thesis by blast
qed

lemma eol_Some: "eol k s = Some r \<Longrightarrow> (s = [] \<or> hd s = 10) \<and> k s = Some r"
  by (cases s) (auto split: if_splits)

lemma opt_greedy_Some: "opt_greedy b k s = Some r \<Longrightarrow> b s = Some r \<or> k s = Some r"
  by (auto simp: opt_greedy_def split: option.splits)

lemma tag_group_Some:
  assumes "tag_group db k s = Some r"
  shows "\<exists>ws e t. s = ws @ u ''['' @ e @ u '']'' @ t \<and> ws \<noteq> [] \<and> list_all (is_space db) ws \<and>
           e \<noteq> [] \<and> list_all (is_word db) e \<and> (t = [] \<or> hd t = 10) \<and> k e t = Some r"
proof -
  from assms obtain ws t1 where 1: "s = ws @ t1" "ws \<noteq> []" "list_all (is_space db) ws"
    and 2: "lit (u ''['') (plus_greedy (is_word db) (\<lambda>e. lit (u '']'') (eol (k e)))) t1 = Some r"
    unfolding tag_group_def by (blast dest: plus_greedy_Some)
  from lit_Some[OF 2] obtain t2 where 3: "t1 = u ''['' @ t2"
    and 4: "plus_greedy (is_word db) (\<lambda>e. lit (u '']'') (eol (k e))) t2 = Some r" by blast
  from plus_greedy_Some[OF 4] obtain e t3 where 5: "t2 = e @ t3" "e \<noteq> []" "list_all (is_word db) e"
    and 6: "lit (u '']'') (eol (k e)) t3 = Some r" by blast
  from lit_Some[OF 6] obtain t where 7: "t3 = u '']'' @ t" and 8: "eol (k e) t = Some r" by blast
  from eol_Some[OF 8] have 9: "(t = [] \<or> hd t = 10)" "k e t = Some r" by auto
  from 1 3 5 7 9 show ?thesis by auto
qed

lemma task_tail_Some:
  assumes "task_tail db k s = Some r"
  shows "\<exists>ws d tg e t. s = ws @ d @ tg @ t \<and> list_all (is_space db) ws \<and> d \<noteq> [] \<and> 10 \<notin> set d \<and>
           (t = [] \<or> hd t = 10) \<and> k d e t = Some r \<and>
           (case e of None \<Rightarrow> tg = []
            | Some x \<Rightarrow> x \<noteq> [] \<and> list_all (is_word db) x \<and>
                (\<exists>ws'. ws' \<noteq> [] \<and> list_all (is_space db) ws' \<and> tg = ws' @ u ''['' @ x @ u '']''))"
proof -
  from assms obtain ws t1 where 1: "s = ws @ t1" "list_all (is_space db) ws"
    and 2: "plus_lazy (\<lambda>x. x \<noteq> 10) (\<lambda>d.
              opt_greedy (tag_group db (\<lambda>e. k d (Some e))) (eol (k d None))) t1 = Some r"
    unfolding task_tail_def by (fastforce dest: star_greedy_Some)
  from plus_lazy_Some[OF 2] obtain d t2 where 3: "t1 = d @ t2" "d \<noteq> []" "list_all (\<lambda>x. x \<noteq> 10) d"
    and 4: "opt_greedy (tag_group db (\<lambda>e. k d (Some e))) (eol (k d None)) t2 = Some r" by blast
  from 3 have d10: "10 \<notin> set d" by (auto simp: list_all_iff)
  from opt_greedy_Some[OF 4] show ?thesis
  proof
    assume "tag_group db (\<lambda>e. k d (Some e)) t2 = Some r"
    from tag_group_Some[OF this] obtain ws' e t where
      5: "t2 = ws' @ u ''['' @ e @ u '']'' @ t" "ws' \<noteq> []" "list_all (is_space db) ws'"
         "e \<noteq> []" "list_all (is_word db) e" "t = [] \<or> hd t = 10" "k d (Some e) t = Some r" by blast
    show ?thesis
      apply (rule exI[of _ ws], rule exI[of _ d], rule exI[of _ "ws' @ u ''['' @ e @ u '']''"],
             rule exI[of _ "Some e"], rule exI[of _ t])
      using 1 3 5 d10 by auto
  next
    assume "eol (k d None) t2 = Some r"
    from eol_Some[OF this] have 5: "t2 = [] \<or> hd t2 = 10" "k d None t2 = Some r" by auto
    show ?thesis
      apply (rule exI[of _ ws], rule exI[of _ d], rule exI[of _ "[]"],
             rule exI[of _ "None"], rule exI[of _ t2])
      using 1 3 5 d10 by auto
  qed
qed

lemma task_head_Some:
  assumes "task_head db k s = Some r"
  shows "\<exists>a b c t. s = u ''- ['' @ [a] @ u ''] TASK-'' @ b @ u ''-'' @ c @ u '':'' @ t \<and>
           (a = 32 \<or> a = 120) \<and> b \<noteq> [] \<and> list_all (is_word db) b \<and>
           c \<noteq> [] \<and> list_all (is_digit db) c \<and> k a b c t = Some r"
proof -
  from assms have "lit (u ''- ['') (one (\<lambda>x. x = 32 \<or> x = 120) (\<lambda>a.
     lit (u ''] TASK-'') (plus_greedy (is_word db) (\<lambda>b.
     lit (u ''-'') (plus_greedy (is_digit db) (\<lambda>c.
     lit (u '':'') (k a b c))))))) s = Some r" by (simp add: task_head_def)
  from lit_Some[OF this] obtain t1 where 1: "s = u ''- ['' @ t1"
    and "one (\<lambda>x. x = 32 \<or> x = 120) (\<lambda>a.
     lit (u ''] TASK-'') (plus_greedy (is_word db) (\<lambda>b.
     lit (u ''-'') (plus_greedy (is_digit db) (\<lambda>c.
     lit (u '':'') (k a b c)))))) t1 = Some r" by blast
  from one_Some[OF this(2)] obtain a t2 where 2: "t1 = a # t2" "a = 32 \<or> a = 120"
    and "lit (u ''] TASK-'') (plus_greedy (is_word db) (\<lambda>b.
     lit (u ''-'') (plus_greedy (is_digit db) (\<lambda>c.
     lit (u '':'') (k a b c))))) t2 = Some r" by blast
  from lit_Some[OF this(3)] obtain t3 where 3: "t2 = u ''] TASK-'' @ t3"
    and "plus_greedy (is_word db) (\<lambda>b.
     lit (u ''-'') (plus_greedy (is_digit db) (\<lambda>c.
     lit (u '':'') (k a b c)))) t3 = Some r" by blast
  from plus_greedy_Some[OF this(2)] obtain b t4 where 4: "t3 = b @ t4" "b \<noteq> []" "list_all (is_word db) b"
    and "lit (u ''-'') (plus_greedy (is_digit db) (\<lambda>c. lit (u '':'') (k a b c))) t4 = Some r" by blast
  from lit_Some[OF this(4)] obtain t5 where 5: "t4 = u ''-'' @ t5"
    and "plus_greedy (is_digit db) (\<lambda>c. lit (u '':'') (k a b c)) t5 = Some r" by blast
  from plus_greedy_Some[OF this(2)] obtain c t6 where 6: "t5 = c @ t6" "c \<noteq> []" "list_all (is_digit db) c"
    and "lit (u '':'') (k a b c) t6 = Some r" by blast
  from lit_Some[OF this(4)] obtain t where 7: "t6 = u '':'' @ t" and 8: "k a b c t = Some r" by blast
  show ?thesis
    apply (rule exI[of _ a], rule exI[of _ b], rule exI[of _ c], rule exI[of _ t])
    using 1 2 3 4 5 6 7 8 by simp
qed


lemma task_pattern_Some:
  assumes "task_pattern db s = Some (m, rest)"
  shows "\<exists>ws tg. s = u ''- ['' @ [group1 m] @ u ''] TASK-'' @ group2 m @ u ''-'' @ group3 m @ u '':'' @
                     ws @ group4 m @ tg @ rest \<and>
           (group1 m = 32 \<or> group1 m = 120) \<and>
           group2 m \<noteq> [] \<and> list_all (is_word db) (group2 m) \<and>
           group3 m \<noteq> [] \<and> list_all (is_digit db) (group3 m) \<and>
           list_all (is_space db) ws \<and> group4 m \<noteq> [] \<and> 10 \<notin> set (group4 m) \<and>
           (rest = [] \<or> hd rest = 10) \<and>
           (case group5 m of None \<Rightarrow> tg = []
            | Some x \<Rightarrow> x \<noteq> [] \<and> list_all (is_word db) x \<and>
                (\<exists>ws'. ws' \<noteq> [] \<and> list_all (is_space db) ws' \<and> tg = ws' @ u ''['' @ x @ u '']''))"
proof -
  from assms have "task_head db (\<lambda>a b c. task_tail db (\<lambda>d e rest.
       Some (\<lparr>group1 = a, group2 = b, group3 = c, group4 = d, group5 = e\<rparr>, rest))) s = Some (m, rest)"
    by (simp add: task_pattern_def)
  from task_head_Some[OF this] obtain a b c t where
    1: "s = u ''- ['' @ [a] @ u ''] TASK-'' @ b @ u ''-'' @ c @ u '':'' @ t"
       "a = 32 \<or> a = 120" "b \<noteq> []" "list_all (is_word db) b" "c \<noteq> []" "list_all (is_digit db) c"
    and 2: "task_tail db (\<lambda>d e rest.
       Some (\<lparr>group1 = a, group2 = b, group3 = c, group4 = d, group5 = e\<rparr>, rest)) t = Some (m, rest)"
    by blast
  from task_tail_Some[OF 2] obtain ws d tg e t' where
    3: "t = ws @ d @ tg @ t'" "list_all (is_space db) ws" "d \<noteq> []" "10 \<notin> set d" "t' = [] \<or> hd t' = 10"
       "Some (\<lparr>group1 = a, group2 = b, group3 = c, group4 = d, group5 = e\<rparr>, t') = Some (m, rest)"
       "(case e of None \<Rightarrow> tg = []
            | Some x \<Rightarrow> x \<noteq> [] \<and> list_all (is_word db) x \<and>
                (\<exists>ws'. ws' \<noteq> [] \<and> list_all (is_space db) ws' \<and> tg = ws' @ u ''['' @ x @ u '']''))"
    by blast
  from 3(6) have m: "m = \<lparr>group1 = a, group2 = b, group3 = c, group4 = d, group5 = e\<rparr>" "rest = t'"
    by simp_all
  show ?thesis
    apply (rule exI[of _ ws], rule exI[of _ tg])
    using 1 3(1-5,7) m by simp
qed

lemma task_pattern_shorter:
  assumes "task_pattern db s = Some (m, rest)"
  shows "length rest < length s"
proof -
  from task_pattern_Some[OF assms] obtain ws tg where
    "s = u ''- ['' @ [group1 m] @ u ''] TASK-'' @ group2 m @ u ''-'' @ group3 m @ u '':'' @
                     ws @ group4 m @ tg @ rest" by blast
  then have "length s = length (u ''- ['' @ [group1 m] @ u ''] TASK-'' @ group2 m @ u ''-'' @ group3 m @ u '':'' @
                     ws @ group4 m @ tg @ rest)" by simp
  then show ?thesis by simp
qed

text \<open>
  \<open>task_pattern.finditer(content)\<close>: the matches from left to right, without overlap. The
  search for the next match starts where the previous match ended; where no match starts
  at a position, the next position is tried.
\<close>

function finditer :: "unicode_db \<Rightarrow> ustr \<Rightarrow> rmatch list" where
  "finditer db s =
     (case task_pattern db s of
        Some (m, rest) \<Rightarrow> m # finditer db rest
      | None \<Rightarrow> (case s of [] \<Rightarrow> [] | c # s' \<Rightarrow> finditer db s'))"
  by pat_completeness auto
termination
  by (relation "measure (\<lambda>(db, s). length s)") (auto simp: task_pattern_shorter)

declare finditer.simps [simp del]


section \<open>Task records\<close>

record task =
  task_id :: ustr
  prd_id :: ustr
  description :: ustr
  status :: ustr
  file_name :: ustr

text \<open>\<open>x or y\<close> for a group that is \<open>None\<close> or a string: the empty string is false as well.\<close>

definition py_or :: "ustr option \<Rightarrow> ustr \<Rightarrow> ustr" where
  "py_or x y = (case x of None \<Rightarrow> y | Some s \<Rightarrow> if s = [] then y else s)"

text \<open>The body of the loop over the matches: the record appended for one match.\<close>

definition task_of_match :: "unicode_db \<Rightarrow> ustr \<Rightarrow> rmatch \<Rightarrow> task" where
  "task_of_match db name m =
     (let checked = (group1 m = 120);
          prd = group2 m;
          task_num = group3 m;
          desc = strip db (group4 m);
          st = py_or (group5 m) (if checked then u ''done'' else u ''pending'')
      in \<lparr>task_id = u ''TASK-'' @ prd @ u ''-'' @ task_num, prd_id = prd,
          description = desc, status = st, file_name = name\<rparr>)"


section \<open>Files\<close>

text \<open>
  What is found at a path: a file, whose \<open>read_text()\<close> gives its text or raises (a file
  that cannot be read or decoded has no text), or a directory with its entries in the
  order in which the system lists them. A path is kept as the name of its last component
  together with what is found there.
\<close>

datatype node = File "ustr option" | Dir "(ustr \<times> node) list"

type_synonym path = "ustr \<times> node"

datatype error = IsADirectoryError | ReadFailure

fun read_text :: "path \<Rightarrow> error + ustr" where
  "read_text (name, File None) = Inl ReadFailure"
| "read_text (name, File (Some content)) = Inr content"
| "read_text (name, Dir es) = Inl IsADirectoryError"

text \<open>\<open>(d / name)\<close> when it exists.\<close>

fun child :: "node \<Rightarrow> ustr \<Rightarrow> node option" where
  "child (Dir es) name = map_of es name"
| "child (File c) name = None"

text \<open>
  A name matches \<open>pre*suf\<close> when it starts with \<open>pre\<close> and what follows ends with \<open>suf\<close>
  (the comparison of a POSIX system, where the case of letters counts). \<open>glob\<close> lists the
  entries of a directory whose names match, files and directories alike, and nothing for a
  path that is not a directory.
\<close>

definition glob_star :: "ustr \<Rightarrow> ustr \<Rightarrow> ustr \<Rightarrow> bool" where
  "glob_star pre suf name = (prefix pre name \<and> suffix suf (drop (length pre) name))"

fun glob :: "node \<Rightarrow> ustr \<Rightarrow> ustr \<Rightarrow> path list" where
  "glob (Dir es) pre suf = filter (\<lambda>(name, x). glob_star pre suf name) es"
| "glob (File c) pre suf = []"

definition find_task_files :: "node \<Rightarrow> path list" where
  "find_task_files project_dir =
     (case child project_dir (u ''tasks'') of
        None \<Rightarrow> []
      | Some tasks_dir \<Rightarrow> glob tasks_dir (u ''TASKS-'') (u ''.md''))"

definition find_prd_files :: "node \<Rightarrow> path list" where
  "find_prd_files project_dir =
     (case child project_dir (u ''prds'') of
        None \<Rightarrow> []
      | Some prds_dir \<Rightarrow> glob prds_dir (u ''PRD-'') (u ''.md''))"

definition parse_task_file :: "unicode_db \<Rightarrow> path \<Rightarrow> error + task list" where
  "parse_task_file db task_file =
     (case read_text task_file of
        Inl e \<Rightarrow> Inl e
      | Inr content \<Rightarrow> Inr (map (task_of_match db (fst task_file)) (finditer db content)))"


section \<open>The summary\<close>

text \<open>
  The completion is the integer \<open>0\<close> or a float. A float is kept as the expression that
  computes it; its arithmetic is not interpreted.
\<close>

datatype pyfloat = TrueDiv nat nat | Times pyfloat nat | Round1 pyfloat

datatype pynum = PyInt int | PyFloat pyfloat

text \<open>\<open>round(x, 1)\<close>: an integer is returned as it is.\<close>

fun py_round1 :: "pynum \<Rightarrow> pynum" where
  "py_round1 (PyInt i) = PyInt i"
| "py_round1 (PyFloat f) = PyFloat (Round1 f)"

record summary =
  total_prds :: nat
  total_tasks :: nat
  pending :: nat
  in_progress :: nat
  done_tasks :: nat
  blocked :: nat
  cancelled :: nat
  completion :: pynum
  tasks :: "task list"

text \<open>\<open>status_counts\<close>, a \<open>defaultdict(int)\<close>: a key that was never counted reads as 0.\<close>

type_synonym counts = "ustr \<rightharpoonup> nat"

definition get :: "counts \<Rightarrow> ustr \<Rightarrow> nat \<Rightarrow> nat" where
  "get d k dflt = (case d k of None \<Rightarrow> dflt | Some n \<Rightarrow> n)"

definition incr :: "counts \<Rightarrow> ustr \<Rightarrow> counts" where
  "incr d k = d(k \<mapsto> get d k 0 + 1)"

fun count_by_status :: "task list \<Rightarrow> counts \<Rightarrow> counts" where
  "count_by_status [] d = d"
| "count_by_status (t # ts) d = count_by_status ts (incr d (status t))"

text \<open>The second half of \<open>get_status_summary\<close>: from the counting loop to the result.\<close>

definition build_summary :: "path list \<Rightarrow> task list \<Rightarrow> summary" where
  "build_summary prd_files all_tasks =
     (let status_counts = count_by_status all_tasks Map.empty;
          total = length all_tasks;
          done = get status_counts (u ''done'') 0;
          compl = (if total > 0 then PyFloat (Times (TrueDiv done total) 100) else PyInt 0)
      in \<lparr>total_prds = length prd_files,
          total_tasks = total,
          pending = get status_counts (u ''pending'') 0,
          in_progress = get status_counts (u ''in_progress'') 0,
          done_tasks = done,
          blocked = get status_counts (u ''blocked'') 0,
          cancelled = get status_counts (u ''cancelled'') 0,
          completion = py_round1 compl,
          tasks = all_tasks\<rparr>)"

text \<open>The loop over the task files; a file that cannot be read ends the run.\<close>

fun parse_all :: "unicode_db \<Rightarrow> path list \<Rightarrow> task list \<Rightarrow> error + task list" where
  "parse_all db [] all_tasks = Inr all_tasks"
| "parse_all db (task_file # task_files) all_tasks =
     (case parse_task_file db task_file of
        Inl e \<Rightarrow> Inl e
      | Inr ts \<Rightarrow> parse_all db task_files (all_tasks @ ts))"

definition get_status_summary :: "unicode_db \<Rightarrow> node \<Rightarrow> error + summary" where
  "get_status_summary db project_dir =
     (let task_files = find_task_files project_dir;
          prd_files = find_prd_files project_dir
      in case parse_all db task_files [] of
           Inl e \<Rightarrow> Inl e
         | Inr all_tasks \<Rightarrow> Inr (build_summary prd_files all_tasks))"


section \<open>The report\<close>


definition task_line :: "task \<Rightarrow> ustr" where
  "task_line t = u ''  - '' @ task_id t @ u '': '' @ take 60 (description t) @ u ''...''"

text \<open>\<open>[t for t in summary['tasks'] if t['status'] == st]\<close>\<close>

definition tasks_with :: "ustr \<Rightarrow> summary \<Rightarrow> task list" where
  "tasks_with st s = filter (\<lambda>t. status t = st) (tasks s)"

definition pending_section :: "summary \<Rightarrow> ustr list" where
  "pending_section s =
     (let pend = tasks_with (u ''pending'') s
      in if pend \<noteq> []
         then ([10, 9203] @ u '' Pending Tasks ('' @ str_nat (length pend) @ u ''):'')
              # map task_line (take 10 pend)
              @ (if length pend > 10
                 then [u ''  ... and '' @ str_nat (length pend - 10) @ u '' more'']
                 else [])
         else [])"

definition in_progress_section :: "summary \<Rightarrow> ustr list" where
  "in_progress_section s =
     (let inp = tasks_with (u ''in_progress'') s
      in if inp \<noteq> []
         then ([10, 128260] @ u '' In Progress Tasks ('' @ str_nat (length inp) @ u ''):'')
              # map task_line inp
         else [])"

definition blocked_section :: "summary \<Rightarrow> ustr list" where
  "blocked_section s =
     (let blk = tasks_with (u ''blocked'') s
      in if blk \<noteq> []
         then ([10, 128683] @ u '' Blocked Tasks ('' @ str_nat (length blk) @ u ''):'')
              # map task_line blk
         else [])"



section \<open>Lines and shapes\<close>

text \<open>The text of the head of a task line with the given checkbox and ids, and of a tag.\<close>

definition head_text :: "nat \<Rightarrow> ustr \<Rightarrow> ustr \<Rightarrow> ustr" where
  "head_text a b c = u ''- ['' @ [a] @ u ''] TASK-'' @ b @ u ''-'' @ c @ u '':''"

definition tag_text :: "ustr \<Rightarrow> ustr" where
  "tag_text e = u ''['' @ e @ u '']''"

text \<open>\<open>content.split('\n')\<close>: the lines of a text.\<close>

fun split_lines :: "ustr \<Rightarrow> ustr list" where
  "split_lines [] = [[]]"
| "split_lines (c # s) =
     (if c = 10 then [] # split_lines s
      else (case split_lines s of [] \<Rightarrow> [[c]] | l # ls \<Rightarrow> (c # l) # ls))"

text \<open>
  The shape of a task line as the specification words it: \<open>- [ ] TASK-<PRD_ID>-<NUMBER>:\<close>
  or \<open>- [x] TASK-<PRD_ID>-<NUMBER>:\<close>, the ids being one or more word characters and one or
  more digits, followed by the description (and the optional tag), at least one character.
\<close>

definition spec_task_line :: "unicode_db \<Rightarrow> ustr \<Rightarrow> bool" where
  "spec_task_line db l =
     (\<exists>a b c t. l = head_text a b c @ t \<and> (a = 32 \<or> a = 120) \<and>
                b \<noteq> [] \<and> list_all (is_word db) b \<and> c \<noteq> [] \<and> list_all (is_digit db) c \<and> t \<noteq> [])"

text \<open>
  Two kinds of lines on which a match runs over the end of a line, since \<open>\s\<close> also
  matches the line feed: a line where a task head is followed by whitespace only, and a
  line that is nothing but a bracketed word.
\<close>

definition ends_after_colon :: "unicode_db \<Rightarrow> ustr \<Rightarrow> bool" where
  "ends_after_colon db l =
     list_ex (\<lambda>s. task_head db (\<lambda>a b c t. if list_all (is_space db) t then Some () else None) s \<noteq> None)
       (suffixes l)"

definition only_a_tag :: "unicode_db \<Rightarrow> ustr \<Rightarrow> bool" where
  "only_a_tag db l =
     (case dropWhile (is_space db) l of
        [] \<Rightarrow> False
      | c # t \<Rightarrow> c = 91 \<and> takeWhile (is_word db) t \<noteq> [] \<and> dropWhile (is_word db) t = [93])"

text \<open>The same two situations at a position of the text, for the proofs.\<close>

definition tag_follows :: "unicode_db \<Rightarrow> ustr \<Rightarrow> bool" where
  "tag_follows db F =
     (\<exists>ws e T. F = ws @ tag_text e @ T \<and> list_all (is_space db) ws \<and> e \<noteq> [] \<and>
               list_all (is_word db) e \<and> (T = [] \<or> hd T = 10))"

definition ends_here :: "unicode_db \<Rightarrow> ustr \<Rightarrow> bool" where
  "ends_here db s =
     (\<exists>a b c t. s = head_text a b c @ t \<and> (a = 32 \<or> a = 120) \<and>
                b \<noteq> [] \<and> list_all (is_word db) b \<and> c \<noteq> [] \<and> list_all (is_digit db) c \<and>
                list_all (is_space db) t)"

section \<open>Example projects\<close>


text \<open>A project directory with one requirement document and no \<open>tasks\<close> directory.\<close>

definition prds_only :: node where
  "prds_only = Dir [(u ''prds'', Dir [(u ''PRD-001.md'', File (Some (u ''# Login'')))])]"

text \<open>The project of the end-to-end example of the specification.\<close>

definition auth_tasks :: ustr where
  "auth_tasks = u ''- [x] TASK-AUTH-001: Implement login'' @ [10] @
                u ''- [ ] TASK-AUTH-002: Add password reset [blocked]'' @ [10]"

definition auth_project :: node where
  "auth_project =
     Dir [(u ''prds'', Dir [(u ''PRD-AUTH.md'', File (Some (u ''# Auth'')))]),
          (u ''tasks'', Dir [(u ''TASKS-AUTH.md'', File (Some auth_tasks))])]"

text \<open>The same task list beside other files: a note, and a requirement document with another text.\<close>

definition auth_project' :: node where
  "auth_project' =
     Dir [(u ''notes.txt'', File None),
          (u ''tasks'', Dir [(u ''TASKS-AUTH.md'', File (Some auth_tasks))]),
          (u ''prds'', Dir [(u ''README.md'', File (Some [])),
                            (u ''PRD-AUTH.md'', File (Some (u ''# Authentication, revised'')))])]"

definition auth_summary :: summary where
  "auth_summary =
     \<lparr>total_prds = 1, total_tasks = 2, pending = 0, in_progress = 0, done_tasks = 1,
      blocked = 1, cancelled = 0, completion = PyFloat (Round1 (Times (TrueDiv 1 2) 100)),
      tasks = [\<lparr>task_id = u ''TASK-AUTH-001'', prd_id = u ''AUTH'',
                 description = u ''Implement login'', status = u ''done'',
                 file_name = u ''TASKS-AUTH.md''\<rparr>,
               \<lparr>task_id = u ''TASK-AUTH-002'', prd_id = u ''AUTH'',
                 description = u ''Add password reset'', status = u ''blocked'',
                 file_name = u ''TASKS-AUTH.md''\<rparr>]\<rparr>"

text \<open>A task after other words on its line, and a task with a blank description above another.\<close>

definition noted_task :: ustr where
  "noted_task = u ''See - [x] TASK-A-1: write the report''"

definition blank_then_task :: ustr where
  "blank_then_task = u ''- [ ] TASK-A-1:  '' @ [10] @ u ''- [ ] TASK-A-2: bar''"

text \<open>A task line without a tag above a line that holds a bracketed word only.\<close>

definition tag_below_task :: ustr where
  "tag_below_task = u ''- [ ] TASK-A-1: foo'' @ [10] @ u ''[blocked]''"

section \<open>Properties of the summary\<close>

lemma count_by_status_get:
  "get (count_by_status ts d) k 0 = get d k 0 + length (filter (\<lambda>t. status t = k) ts)"
  by (induction ts arbitrary: d) (auto simp: incr_def get_def)

lemma count_by_status_empty:
  "get (count_by_status ts Map.empty) k 0 = length (filter (\<lambda>t. status t = k) ts)"
  by (simp add: count_by_status_get) (simp add: get_def)

lemma five_way_split:
  "length ts =
     length (filter (\<lambda>t. status t = u ''pending'') ts) +
     length (filter (\<lambda>t. status t = u ''in_progress'') ts) +
     length (filter (\<lambda>t. status t = u ''done'') ts) +
     length (filter (\<lambda>t. status t = u ''blocked'') ts) +
     length (filter (\<lambda>t. status t = u ''cancelled'') ts) +
     length (filter (\<lambda>t. status t \<noteq> u ''pending'' \<and> status t \<noteq> u ''in_progress'' \<and>
                         status t \<noteq> u ''done'' \<and> status t \<noteq> u ''blocked'' \<and>
                         status t \<noteq> u ''cancelled'') ts)"
  by (induction ts) auto

text \<open>
  The completion: the integer \<open>0\<close> without tasks, else the float
  \<open>round(done / total * 100, 1)\<close> of the two counts.
\<close>

lemma completion_expression:
  "completion (build_summary prd_files ts) =
     (if ts = [] then PyInt 0
      else PyFloat (Round1 (Times (TrueDiv (length (filter (\<lambda>t. status t = u ''done'') ts))
                                           (length ts)) 100)))"
  by (simp add: build_summary_def Let_def count_by_status_empty)

text \<open>
  Claim C6. Each of the five named fields of the summary (\<open>pending\<close>, \<open>in_progress\<close>,
  \<open>done\<close>, \<open>blocked\<close>, \<open>cancelled\<close>) is the number of records with exactly that status.
  A record with any other status is counted in \<open>total_tasks\<close> only: the total is the sum
  of the five fields and of the number of records with another status, so the five fields
  together never exceed it.
\<close>

theorem summary_counts_by_status:
  "pending (build_summary prd_files ts) = length (filter (\<lambda>t. status t = u ''pending'') ts) \<and>
   in_progress (build_summary prd_files ts) = length (filter (\<lambda>t. status t = u ''in_progress'') ts) \<and>
   done_tasks (build_summary prd_files ts) = length (filter (\<lambda>t. status t = u ''done'') ts) \<and>
   blocked (build_summary prd_files ts) = length (filter (\<lambda>t. status t = u ''blocked'') ts) \<and>
   cancelled (build_summary prd_files ts) = length (filter (\<lambda>t. status t = u ''cancelled'') ts) \<and>
   total_tasks (build_summary prd_files ts) =
     pending (build_summary prd_files ts) + in_progress (build_summary prd_files ts) +
     done_tasks (build_summary prd_files ts) + blocked (build_summary prd_files ts) +
     cancelled (build_summary prd_files ts) +
     length (filter (\<lambda>t. status t \<noteq> u ''pending'' \<and> status t \<noteq> u ''in_progress'' \<and>
                         status t \<noteq> u ''done'' \<and> status t \<noteq> u ''blocked'' \<and>
                         status t \<noteq> u ''cancelled'') ts) \<and>
   pending (build_summary prd_files ts) + in_progress (build_summary prd_files ts) +
     done_tasks (build_summary prd_files ts) + blocked (build_summary prd_files ts) +
     cancelled (build_summary prd_files ts) \<le> total_tasks (build_summary prd_files ts)"
proof -
  have f: "pending (build_summary prd_files ts) = length (filter (\<lambda>t. status t = u ''pending'') ts)"
    "in_progress (build_summary prd_files ts) = length (filter (\<lambda>t. status t = u ''in_progress'') ts)"
    "done_tasks (build_summary prd_files ts) = length (filter (\<lambda>t. status t = u ''done'') ts)"
    "blocked (build_summary prd_files ts) = length (filter (\<lambda>t. status t = u ''blocked'') ts)"
    "cancelled (build_summary prd_files ts) = length (filter (\<lambda>t. status t = u ''cancelled'') ts)"
    "total_tasks (build_summary prd_files ts) = length ts"
    by (simp_all add: build_summary_def Let_def count_by_status_empty)
  show ?thesis
    unfolding f using five_way_split[of ts] by simp
qed

lemma auth_project_summary: "get_status_summary ascii auth_project = Inr auth_summary"
  by code_simp

lemma auth_project_summary': "get_status_summary ascii auth_project' = Inr auth_summary"
  by code_simp

text \<open>
  Claim C7. When the \<open>tasks\<close> subdirectory (or the \<open>prds\<close> subdirectory) does not exist,
  file discovery returns the empty list and does not fail. With no \<open>tasks\<close> directory the
  run succeeds with \<open>total_tasks = 0\<close> and the completion \<open>0\<close>; when moreover \<open>prds\<close>
  holds one file named \<open>PRD-*.md\<close>, \<open>total_prds = 1\<close>.
\<close>

theorem missing_subdirectory:
  "(child project_dir (u ''tasks'') = None \<longrightarrow> find_task_files project_dir = []) \<and>
   (child project_dir (u ''prds'') = None \<longrightarrow> find_prd_files project_dir = []) \<and>
   (child project_dir (u ''tasks'') = None \<longrightarrow>
      get_status_summary db project_dir = Inr (build_summary (find_prd_files project_dir) []) \<and>
      total_prds (build_summary (find_prd_files project_dir) []) = length (find_prd_files project_dir) \<and>
      total_tasks (build_summary (find_prd_files project_dir) []) = 0 \<and>
      completion (build_summary (find_prd_files project_dir) []) = PyInt 0) \<and>
   (child project_dir (u ''tasks'') = None \<and>
    child project_dir (u ''prds'') = Some (Dir [(u ''PRD-'' @ x @ u ''.md'', f)]) \<longrightarrow>
      total_prds (build_summary (find_prd_files project_dir) []) = 1)"
proof -
  have g: "glob_star (u ''PRD-'') (u ''.md'') (u ''PRD-'' @ x @ u ''.md'')"
    unfolding glob_star_def prefix_def suffix_def by auto
  show ?thesis
    using g by (auto simp: find_task_files_def find_prd_files_def get_status_summary_def
        build_summary_def Let_def)
qed

theorem missing_subdirectory_witness:
  "child prds_only (u ''tasks'') = None \<and>
   child (Dir []) (u ''prds'') = None \<and>
   find_task_files prds_only = [] \<and>
   find_prd_files (Dir []) = [] \<and>
   child prds_only (u ''prds'') = Some (Dir [(u ''PRD-'' @ u ''001'' @ u ''.md'', File (Some (u ''# Login'')))]) \<and>
   get_status_summary ascii prds_only = Inr (build_summary (find_prd_files prds_only) []) \<and>
   total_prds (build_summary (find_prd_files prds_only) []) = 1 \<and>
   total_tasks (build_summary (find_prd_files prds_only) []) = 0 \<and>
   completion (build_summary (find_prd_files prds_only) []) = PyInt 0"
proof -
  have 1: "child prds_only (u ''tasks'') = None" by (simp add: prds_only_def)
  have 2: "child (Dir []) (u ''prds'') = None" by simp
  have 3: "child prds_only (u ''prds'') =
             Some (Dir [(u ''PRD-'' @ u ''001'' @ u ''.md'', File (Some (u ''# Login'')))])"
    by (simp add: prds_only_def)
  from missing_subdirectory[of prds_only ascii "u ''001''" "File (Some (u ''# Login''))"] 1 3
  have a: "find_task_files prds_only = []"
    "get_status_summary ascii prds_only = Inr (build_summary (find_prd_files prds_only) [])"
    "total_prds (build_summary (find_prd_files prds_only) []) = 1"
    "total_tasks (build_summary (find_prd_files prds_only) []) = 0"
    "completion (build_summary (find_prd_files prds_only) []) = PyInt 0"
    by simp_all
  from missing_subdirectory[of "Dir []"] 2 have b: "find_prd_files (Dir []) = []" by simp
  show ?thesis using 1 2 3 a b by simp
qed




text \<open>
  Claim C9. In every summary that \<open>get_status_summary\<close> returns, \<open>total_tasks\<close> is the
  length of the task list and each of the five named counts is the number of records of
  the list with exactly that status. So the count printed in the header of each of the
  three task sections is the count of the breakdown, and a section is printed exactly
  when that count is not zero.
\<close>

theorem summary_invariant:
  assumes "get_status_summary db project_dir = Inr s"
  shows "total_tasks s = length (tasks s) \<and>
         pending s = length (tasks_with (u ''pending'') s) \<and>
         in_progress s = length (tasks_with (u ''in_progress'') s) \<and>
         done_tasks s = length (tasks_with (u ''done'') s) \<and>
         blocked s = length (tasks_with (u ''blocked'') s) \<and>
         cancelled s = length (tasks_with (u ''cancelled'') s) \<and>
         pending_section s =
           (if pending s = 0 then []
            else ([10, 9203] @ u '' Pending Tasks ('' @ str_nat (pending s) @ u ''):'')
                 # map task_line (take 10 (tasks_with (u ''pending'') s))
                 @ (if 10 < pending s
                    then [u ''  ... and '' @ str_nat (pending s - 10) @ u '' more'']
                    else [])) \<and>
         in_progress_section s =
           (if in_progress s = 0 then []
            else ([10, 128260] @ u '' In Progress Tasks ('' @ str_nat (in_progress s) @ u ''):'')
                 # map task_line (tasks_with (u ''in_progress'') s)) \<and>
         blocked_section s =
           (if blocked s = 0 then []
            else ([10, 128683] @ u '' Blocked Tasks ('' @ str_nat (blocked s) @ u ''):'')
                 # map task_line (tasks_with (u ''blocked'') s))"
proof -
  from assms obtain ts where s: "s = build_summary (find_prd_files project_dir) ts"
    by (auto simp: get_status_summary_def Let_def split: sum.splits)
  have f: "total_tasks s = length (tasks s)"
    "pending s = length (tasks_with (u ''pending'') s)"
    "in_progress s = length (tasks_with (u ''in_progress'') s)"
    "done_tasks s = length (tasks_with (u ''done'') s)"
    "blocked s = length (tasks_with (u ''blocked'') s)"
    "cancelled s = length (tasks_with (u ''cancelled'') s)"
    unfolding s by (simp_all add: build_summary_def Let_def count_by_status_empty tasks_with_def)
  have p: "pending_section s =
           (if pending s = 0 then []
            else ([10, 9203] @ u '' Pending Tasks ('' @ str_nat (pending s) @ u ''):'')
                 # map task_line (take 10 (tasks_with (u ''pending'') s))
                 @ (if 10 < pending s
                    then [u ''  ... and '' @ str_nat (pending s - 10) @ u '' more'']
                    else []))"
    unfolding f(2) by (simp add: pending_section_def Let_def)
  have i: "in_progress_section s =
           (if in_progress s = 0 then []
            else ([10, 128260] @ u '' In Progress Tasks ('' @ str_nat (in_progress s) @ u ''):'')
                 # map task_line (tasks_with (u ''in_progress'') s))"
    unfolding f(3) by (simp add: in_progress_section_def Let_def)
  have b: "blocked_section s =
           (if blocked s = 0 then []
            else ([10, 128683] @ u '' Blocked Tasks ('' @ str_nat (blocked s) @ u ''):'')
                 # map task_line (tasks_with (u ''blocked'') s))"
    unfolding f(5) by (simp add: blocked_section_def Let_def)
  show ?thesis using f p i b by blast
qed

theorem summary_invariant_witness:
  "get_status_summary ascii auth_project = Inr auth_summary \<and>
   total_tasks auth_summary = length (tasks auth_summary) \<and>
   blocked auth_summary = length (tasks_with (u ''blocked'') auth_summary) \<and>
   done_tasks auth_summary = length (tasks_with (u ''done'') auth_summary) \<and>
   pending_section auth_summary = [] \<and>
   blocked_section auth_summary =
     [[10, 128683] @ u '' Blocked Tasks (1):'', u ''  - TASK-AUTH-002: Add password reset...'']"
proof -
  note h = auth_project_summary
  have t: "tasks_with (u ''blocked'') auth_summary =
             [\<lparr>task_id = u ''TASK-AUTH-002'', prd_id = u ''AUTH'',
                 description = u ''Add password reset'', status = u ''blocked'',
                 file_name = u ''TASKS-AUTH.md''\<rparr>]"
    by (simp add: tasks_with_def auth_summary_def)
  have v: "blocked auth_summary = 1" "pending auth_summary = 0" by (simp_all add: auth_summary_def)
  have n: "str_nat 1 = u ''1''" by (simp add: str_nat.simps)
  from summary_invariant[OF h]
  have "total_tasks auth_summary = length (tasks auth_summary)"
    "blocked auth_summary = length (tasks_with (u ''blocked'') auth_summary)"
    "done_tasks auth_summary = length (tasks_with (u ''done'') auth_summary)"
    "pending_section auth_summary = []"
    "blocked_section auth_summary =
       [[10, 128683] @ u '' Blocked Tasks (1):'', u ''  - TASK-AUTH-002: Add password reset...'']"
    unfolding v t n by (simp_all add: task_line_def)
  then show ?thesis using h by simp
qed


section \<open>Properties of the report\<close>




text \<open>
  Claim C5. The line printed for a task, in each of the three task sections, is the task's
  id, then at most the first sixty characters of its description, then \<open>...\<close>; the
  ellipsis is printed whether or not the description was cut.
\<close>

theorem task_lines_truncated:
  "task_line t = u ''  - '' @ task_id t @ u '': '' @ take 60 (description t) @ u ''...'' \<and>
   length (take 60 (description t)) \<le> 60 \<and>
   prefix (take 60 (description t)) (description t) \<and>
   suffix (u ''...'') (task_line t) \<and>
   length (task_line t) = length (task_id t) + 9 + min 60 (length (description t)) \<and>
   take (length (take 10 (tasks_with (u ''pending'') s))) (tl (pending_section s)) =
     map task_line (take 10 (tasks_with (u ''pending'') s)) \<and>
   tl (in_progress_section s) = map task_line (tasks_with (u ''in_progress'') s) \<and>
   tl (blocked_section s) = map task_line (tasks_with (u ''blocked'') s)"
proof -
  have 1: "suffix (u ''...'') (task_line t)"
    unfolding task_line_def suffix_def
    by (rule exI[of _ "u ''  - '' @ task_id t @ u '': '' @ take 60 (description t)"]) simp
  have 2: "prefix (take 60 (description t)) (description t)"
    by (rule take_is_prefix)
  have 3: "take (length (take 10 (tasks_with (u ''pending'') s))) (tl (pending_section s)) =
     map task_line (take 10 (tasks_with (u ''pending'') s))"
    by (simp add: pending_section_def Let_def)
  have 4: "tl (in_progress_section s) = map task_line (tasks_with (u ''in_progress'') s)"
    "tl (blocked_section s) = map task_line (tasks_with (u ''blocked'') s)"
    by (simp_all add: in_progress_section_def blocked_section_def Let_def)
  have 5: "length (task_line t) = length (task_id t) + 9 + min 60 (length (description t))"
    by (simp add: task_line_def min_def)
  show ?thesis using 1 2 3 4 5 by (simp add: task_line_def)
qed


section \<open>Properties of the parser\<close>

text \<open>Every match of \<open>finditer\<close> is a match of the pattern at some position of the text.\<close>

lemma finditer_mem:
  "m \<in> set (finditer db s) \<Longrightarrow> \<exists>pre suf rest. s = pre @ suf \<and> task_pattern db suf = Some (m, rest)"
proof (induction db s rule: finditer.induct)
  case (1 db s)
  show ?case
  proof (cases "task_pattern db s")
    case None
    show ?thesis
    proof (cases s)
      case Nil
      with None 1(3) show ?thesis by (simp add: finditer.simps)
    next
      case (Cons c s')
      with None 1(3) have "m \<in> set (finditer db s')" by (simp add: finditer.simps)
      from 1(1)[OF None Cons this] obtain pre suf rest where
        "s' = pre @ suf" "task_pattern db suf = Some (m, rest)" by blast
      with Cons have "s = (c # pre) @ suf \<and> task_pattern db suf = Some (m, rest)" by simp
      then show ?thesis by blast
    qed
  next
    case (Some r)
    obtain m' rest where r: "r = (m', rest)" by (cases r)
    from 1(3) Some r have "m = m' \<or> m \<in> set (finditer db rest)" by (simp add: finditer.simps)
    then show ?thesis
    proof
      assume "m = m'"
      with Some r have "s = [] @ s \<and> task_pattern db s = Some (m, rest)" by simp
      then show ?thesis by blast
    next
      assume "m \<in> set (finditer db rest)"
      from 1(2)[OF Some r[symmetric] this] obtain pre suf rest' where
        a: "rest = pre @ suf" "task_pattern db suf = Some (m, rest')" by blast
      from task_pattern_Some[OF Some[unfolded r]] obtain x where "s = x @ rest" by auto
      with a have "s = (x @ pre) @ suf \<and> task_pattern db suf = Some (m, rest')" by simp
      then show ?thesis by blast
    qed
  qed
qed

lemma auth_tasks_matches:
  "finditer ascii auth_tasks =
     [\<lparr>group1 = 120, group2 = u ''AUTH'', group3 = u ''001'', group4 = u ''Implement login'',
       group5 = None\<rparr>,
      \<lparr>group1 = 32, group2 = u ''AUTH'', group3 = u ''002'', group4 = u ''Add password reset'',
       group5 = Some (u ''blocked'')\<rparr>]"
  by code_simp

text \<open>
  The records of a file are those of its matches, one for each. A match stands in the text
  as the checkbox, the ids, the description and, when the optional group took part,
  whitespace and a bracketed word, and it ends at the end of a line. The status of its
  record is the word of the optional group when the group took part, else \<open>done\<close> for the
  checkbox \<open>x\<close> and \<open>pending\<close> for the empty checkbox.
\<close>

lemma match_status:
  assumes "m \<in> set (finditer db content)"
  shows "parse_task_file db (name, File (Some content)) =
           Inr (map (task_of_match db name) (finditer db content)) \<and>
         (group1 m = 32 \<or> group1 m = 120) \<and>
         (\<exists>pre ws sp rest.
            content = pre @ u ''- ['' @ [group1 m] @ u ''] TASK-'' @ group2 m @ u ''-'' @ group3 m @
                      u '':'' @ ws @ group4 m @
                      (case group5 m of None \<Rightarrow> [] | Some tag \<Rightarrow> sp @ u ''['' @ tag @ u '']'') @ rest \<and>
            (rest = [] \<or> hd rest = 10) \<and>
            (case group5 m of
               None \<Rightarrow> status (task_of_match db name m) =
                         (if group1 m = 120 then u ''done'' else u ''pending'')
             | Some tag \<Rightarrow> tag \<noteq> [] \<and> list_all (is_word db) tag \<and>
                           sp \<noteq> [] \<and> list_all (is_space db) sp \<and>
                           status (task_of_match db name m) = tag))"
proof -
  from finditer_mem[OF assms] obtain pre suf rest where
    s: "content = pre @ suf" and t: "task_pattern db suf = Some (m, rest)" by blast
  from task_pattern_Some[OF t] obtain ws tg where
    d: "suf = u ''- ['' @ [group1 m] @ u ''] TASK-'' @ group2 m @ u ''-'' @ group3 m @ u '':'' @
                     ws @ group4 m @ tg @ rest"
    and g1: "group1 m = 32 \<or> group1 m = 120"
    and r: "rest = [] \<or> hd rest = 10"
    and g5: "(case group5 m of None \<Rightarrow> tg = []
            | Some x \<Rightarrow> x \<noteq> [] \<and> list_all (is_word db) x \<and>
                (\<exists>ws'. ws' \<noteq> [] \<and> list_all (is_space db) ws' \<and> tg = ws' @ u ''['' @ x @ u '']''))"
    by blast
  have p: "parse_task_file db (name, File (Some content)) =
           Inr (map (task_of_match db name) (finditer db content))"
    by (simp add: parse_task_file_def)
  show ?thesis
  proof (cases "group5 m")
    case None
    with g5 have tg: "tg = []" by simp
    have st: "status (task_of_match db name m) = (if group1 m = 120 then u ''done'' else u ''pending'')"
      using None by (simp add: task_of_match_def py_or_def Let_def)
    have "content = pre @ u ''- ['' @ [group1 m] @ u ''] TASK-'' @ group2 m @ u ''-'' @ group3 m @
                      u '':'' @ ws @ group4 m @
                      (case group5 m of None \<Rightarrow> [] | Some tag \<Rightarrow> [] @ u ''['' @ tag @ u '']'') @ rest"
      using s d tg None by simp
    with r st None p g1 show ?thesis by (intro conjI exI[of _ pre] exI[of _ ws] exI[of _ "[]"] exI[of _ rest]) simp_all
  next
    case (Some tag)
    with g5 obtain sp where tg: "tag \<noteq> []" "list_all (is_word db) tag" "sp \<noteq> []"
      "list_all (is_space db) sp" "tg = sp @ u ''['' @ tag @ u '']''" by auto
    have st: "status (task_of_match db name m) = tag"
      using Some tg(1) by (simp add: task_of_match_def py_or_def Let_def)
    have "content = pre @ u ''- ['' @ [group1 m] @ u ''] TASK-'' @ group2 m @ u ''-'' @ group3 m @
                      u '':'' @ ws @ group4 m @
                      (case group5 m of None \<Rightarrow> [] | Some tag \<Rightarrow> sp @ u ''['' @ tag @ u '']'') @ rest"
      using s d tg Some by simp
    with r st Some p g1 tg show ?thesis
      by (intro conjI exI[of _ pre] exI[of _ ws] exI[of _ sp] exI[of _ rest]) simp_all
  qed
qed

text \<open>
  Claim C1. The status of a task line is not always derived from that line. The line
  \<^verbatim>\<open>- [ ] TASK-A-1: foo\<close> has an empty checkbox and no tag; alone it yields the status
  \<open>pending\<close>. Above a line that holds \<^verbatim>\<open>[blocked]\<close> only, its record has the status
  \<open>blocked\<close>: the whitespace before the optional tag runs over the line feed and the tag is
  taken from the next line.
\<close>

theorem status_taken_from_next_line:
  "split_lines tag_below_task = [u ''- [ ] TASK-A-1: foo'', u ''[blocked]''] \<and>
   parse_task_file ascii (u ''TASKS-A.md'', File (Some (u ''- [ ] TASK-A-1: foo''))) =
     Inr [\<lparr>task_id = u ''TASK-A-1'', prd_id = u ''A'', description = u ''foo'',
           status = u ''pending'', file_name = u ''TASKS-A.md''\<rparr>] \<and>
   parse_task_file ascii (u ''TASKS-A.md'', File (Some tag_below_task)) =
     Inr [\<lparr>task_id = u ''TASK-A-1'', prd_id = u ''A'', description = u ''foo'',
           status = u ''blocked'', file_name = u ''TASKS-A.md''\<rparr>]"
  by code_simp

subsection \<open>Runs that a delimiter ends\<close>

lemma class_facts:
  "\<not> is_word db 45" "\<not> is_digit db 58" "\<not> is_space db 91" "\<not> is_word db 93"
  "is_space db 10" "\<not> is_word db 10" "\<not> is_digit db 10" "is_space db 32"
  by (simp_all add: is_word_def is_digit_def is_space_def)

lemma lit_append: "lit p k (p @ s) = k s"
  by (simp add: lit_eq)

lemma lit_mismatch: "x \<noteq> p \<Longrightarrow> lit (p # ps) k (x # t) = None"
  by simp

text \<open>A greedy run followed by a delimiter outside the class is not cut short.\<close>

lemma star_greedy_delim:
  assumes "list_all P w" "\<not> P c" "\<And>a x t. P x \<Longrightarrow> k a (x # t) = None"
  shows "star_greedy P k acc (w @ c # s) = k (acc @ w) (c # s)"
  using assms(1)
proof (induction w arbitrary: acc)
  case Nil
  then show ?case using assms(2) by simp
next
  case (Cons x w)
  then have px: "P x" and "list_all P w" by simp_all
  from Cons.IH[OF this(2), of "acc @ [x]"]
  have ih: "star_greedy P k (acc @ [x]) (w @ c # s) = k (acc @ x # w) (c # s)" by simp
  show ?case
  proof (cases "k (acc @ x # w) (c # s)")
    case None
    with ih px assms(3)[OF px] show ?thesis by simp
  next
    case (Some r)
    with ih px show ?thesis by simp
  qed
qed

lemma plus_greedy_delim:
  assumes "w \<noteq> []" "list_all P w" "\<not> P c" "\<And>a x t. P x \<Longrightarrow> k a (x # t) = None"
  shows "plus_greedy P k (w @ c # s) = k w (c # s)"
proof -
  from assms(1) obtain x w' where w: "w = x # w'" by (cases w) auto
  with assms(2) have "P x" "list_all P w'" by simp_all
  have "star_greedy P k [x] (w' @ c # s) = k ([x] @ w') (c # s)"
    using \<open>list_all P w'\<close> assms(3) assms(4) by (rule star_greedy_delim)
  with w \<open>P x\<close> show ?thesis by simp
qed

lemma task_head_eval:
  assumes "a = 32 \<or> a = 120" "b \<noteq> []" "list_all (is_word db) b" "c \<noteq> []" "list_all (is_digit db) c"
  shows "task_head db k (head_text a b c @ t) = k a b c t"
proof -
  define K3 where "K3 = (\<lambda>c. lit (u '':'') (k a b c))"
  define K2 where "K2 = (\<lambda>b. lit (u ''-'') (plus_greedy (is_digit db) (\<lambda>c. lit (u '':'') (k a b c))))"
  have f3: "\<And>a x t. is_digit db x \<Longrightarrow> K3 a (x # t) = None"
    unfolding K3_def using class_facts(2)[of db] by auto
  have f2: "\<And>a x t. is_word db x \<Longrightarrow> K2 a (x # t) = None"
    unfolding K2_def using class_facts(1)[of db] by auto
  have "plus_greedy (is_digit db) K3 (c @ 58 # t) = K3 c (58 # t)"
    using assms(4,5) class_facts(2) f3 by (rule plus_greedy_delim)
  then have 1: "plus_greedy (is_digit db) (\<lambda>c. lit (u '':'') (k a b c)) (c @ 58 # t) = k a b c t"
    by (simp add: K3_def)
  have "plus_greedy (is_word db) K2 (b @ 45 # c @ 58 # t) = K2 b (45 # c @ 58 # t)"
    using assms(2,3) class_facts(1) f2 by (rule plus_greedy_delim)
  then have 2: "plus_greedy (is_word db)
             (\<lambda>b. lit (u ''-'') (plus_greedy (is_digit db) (\<lambda>c. lit (u '':'') (k a b c))))
             (b @ 45 # c @ 58 # t) = k a b c t"
    using 1 by (simp add: K2_def)
  show ?thesis
    using assms(1) 2 by (auto simp: task_head_def head_text_def)
qed

lemma tag_group_eval:
  assumes "ws \<noteq> []" "list_all (is_space db) ws" "e \<noteq> []" "list_all (is_word db) e"
  shows "tag_group db k (ws @ tag_text e @ t) = eol (k e) t"
proof -
  define K2 where "K2 = (\<lambda>e. lit (u '']'') (eol (k e)))"
  define K1 where
    "K1 = (\<lambda>_::ustr. lit (u ''['') (plus_greedy (is_word db) (\<lambda>e. lit (u '']'') (eol (k e)))))"
  have f2: "\<And>a x t. is_word db x \<Longrightarrow> K2 a (x # t) = None"
    unfolding K2_def using class_facts(4)[of db] by auto
  have f1: "\<And>a x t. is_space db x \<Longrightarrow> K1 a (x # t) = None"
    unfolding K1_def using class_facts(3)[of db] by auto
  have "plus_greedy (is_word db) K2 (e @ 93 # t) = K2 e (93 # t)"
    using assms(3,4) class_facts(4) f2 by (rule plus_greedy_delim)
  then have 1: "plus_greedy (is_word db) (\<lambda>e. lit (u '']'') (eol (k e))) (e @ 93 # t) = eol (k e) t"
    by (simp add: K2_def)
  have "plus_greedy (is_space db) K1 (ws @ 91 # e @ 93 # t) = K1 ws (91 # e @ 93 # t)"
    using assms(1,2) class_facts(3) f1 by (rule plus_greedy_delim)
  then have "plus_greedy (is_space db)
          (\<lambda>_. lit (u ''['') (plus_greedy (is_word db) (\<lambda>e. lit (u '']'') (eol (k e)))))
          (ws @ 91 # e @ 93 # t) = eol (k e) t"
    using 1 by (simp add: K1_def)
  then show ?thesis by (simp add: tag_group_def tag_text_def)
qed

text \<open>Backtracking finds a match whenever one of the alternatives it tries is one.\<close>

lemma star_greedy_complete: "k acc s \<noteq> None \<Longrightarrow> star_greedy P k acc s \<noteq> None"
  by (cases s) (auto split: option.splits)

lemma star_lazy_complete:
  "list_all P s \<Longrightarrow> k (acc @ s) [] \<noteq> None \<Longrightarrow> star_lazy P k acc s \<noteq> None"
  by (induction s arbitrary: acc) (auto split: option.splits)

lemma plus_lazy_complete:
  "s \<noteq> [] \<Longrightarrow> list_all P s \<Longrightarrow> k s [] \<noteq> None \<Longrightarrow> plus_lazy P k s \<noteq> None"
  using star_lazy_complete[of P "tl s" k "[hd s]"] by (cases s) auto

lemma task_tail_complete:
  assumes "t \<noteq> []" "10 \<notin> set t" "\<And>d. k d None [] \<noteq> None"
  shows "task_tail db k t \<noteq> None"
proof -
  have "list_all (\<lambda>x. x \<noteq> 10) t" using assms(2) by (auto simp: list_all_iff)
  then have "plus_lazy (\<lambda>x. x \<noteq> 10)
          (\<lambda>d. opt_greedy (tag_group db (\<lambda>e. k d (Some e))) (eol (k d None))) t \<noteq> None"
    using assms(1,3) by (intro plus_lazy_complete) (auto simp: opt_greedy_def split: option.splits)
  then show ?thesis
    unfolding task_tail_def by (rule star_greedy_complete)
qed

lemma task_pattern_complete:
  assumes "a = 32 \<or> a = 120" "b \<noteq> []" "list_all (is_word db) b" "c \<noteq> []" "list_all (is_digit db) c"
    "t \<noteq> []" "10 \<notin> set t"
  shows "task_pattern db (head_text a b c @ t) \<noteq> None"
  unfolding task_pattern_def task_head_eval[OF assms(1-5)]
  by (rule task_tail_complete[OF assms(6,7)]) simp

subsection \<open>One line\<close>

lemma task_pattern_Nil: "task_pattern db [] = None"
  by (simp add: task_pattern_def task_head_def)

lemma finditer_Nil: "finditer db [] = []"
  by (simp add: finditer.simps task_pattern_Nil)

lemma task_pattern_rest_line:
  assumes "task_pattern db s = Some (m, rest)" "10 \<notin> set s"
  shows "rest = []"
proof -
  from task_pattern_Some[OF assms(1)] obtain x where "s = x @ rest" "rest = [] \<or> hd rest = 10"
    by auto
  with assms(2) show ?thesis by (cases rest) auto
qed

lemma finditer_line_le1: "10 \<notin> set s \<Longrightarrow> length (finditer db s) \<le> 1"
proof (induction s)
  case Nil
  then show ?case by (simp add: finditer_Nil)
next
  case (Cons c s)
  show ?case
  proof (cases "task_pattern db (c # s)")
    case None
    with Cons show ?thesis by (simp add: finditer.simps[of db "c # s"])
  next
    case (Some r)
    obtain m rest where r: "r = (m, rest)" by (cases r)
    with Some Cons.prems have "rest = []" using task_pattern_rest_line by blast
    with Some r show ?thesis by (simp add: finditer.simps[of db "c # s"] finditer_Nil)
  qed
qed

lemma finditer_found: "task_pattern db suf \<noteq> None \<Longrightarrow> finditer db (pre @ suf) \<noteq> []"
proof (induction pre)
  case Nil
  then show ?case by (auto simp: finditer.simps[of db suf])
next
  case (Cons c pre)
  then show ?case by (auto simp: finditer.simps[of db "c # pre @ suf"] split: option.splits)
qed

lemma task_pattern_spec:
  assumes "task_pattern db s = Some (m, rest)"
  shows "spec_task_line db s"
proof -
  from task_pattern_Some[OF assms] obtain ws tg where
    "s = u ''- ['' @ [group1 m] @ u ''] TASK-'' @ group2 m @ u ''-'' @ group3 m @ u '':'' @
                     ws @ group4 m @ tg @ rest"
    "group1 m = 32 \<or> group1 m = 120" "group2 m \<noteq> []" "list_all (is_word db) (group2 m)"
    "group3 m \<noteq> []" "list_all (is_digit db) (group3 m)" "group4 m \<noteq> []" by blast
  then have "s = head_text (group1 m) (group2 m) (group3 m) @ (ws @ group4 m @ tg @ rest) \<and>
    (group1 m = 32 \<or> group1 m = 120) \<and> group2 m \<noteq> [] \<and> list_all (is_word db) (group2 m) \<and>
    group3 m \<noteq> [] \<and> list_all (is_digit db) (group3 m) \<and> ws @ group4 m @ tg @ rest \<noteq> []"
    by (simp add: head_text_def)
  then show ?thesis unfolding spec_task_line_def by blast
qed

lemma finditer_line_iff:
  assumes "10 \<notin> set l"
  shows "finditer db l \<noteq> [] \<longleftrightarrow> (\<exists>pre suf. l = pre @ suf \<and> spec_task_line db suf)"
proof
  assume "finditer db l \<noteq> []"
  then obtain m where "m \<in> set (finditer db l)" by (cases "finditer db l") auto
  from finditer_mem[OF this] obtain pre suf rest where
    "l = pre @ suf" "task_pattern db suf = Some (m, rest)" by blast
  with task_pattern_spec show "\<exists>pre suf. l = pre @ suf \<and> spec_task_line db suf" by blast
next
  assume "\<exists>pre suf. l = pre @ suf \<and> spec_task_line db suf"
  then obtain pre a b c t where l: "l = pre @ head_text a b c @ t"
    and v: "a = 32 \<or> a = 120" "b \<noteq> []" "list_all (is_word db) b" "c \<noteq> []" "list_all (is_digit db) c"
      "t \<noteq> []" unfolding spec_task_line_def by auto
  from l assms have "10 \<notin> set t" by simp
  from task_pattern_complete[OF v this] have "task_pattern db (head_text a b c @ t) \<noteq> None" .
  from finditer_found[OF this] l show "finditer db l \<noteq> []" by simp
qed

subsection \<open>A line and the text after it\<close>

lemma star_lazy_ctx:
  assumes "\<not> P 10" "10 \<notin> set s"
    "\<And>acc R. 10 \<notin> set R \<Longrightarrow> k' acc (R @ 10 # F) = map_option f (k acc R)"
  shows "star_lazy P k' acc (s @ 10 # F) = map_option f (star_lazy P k acc s)"
  using assms(2)
proof (induction s arbitrary: acc)
  case Nil
  have "k' acc ([] @ 10 # F) = map_option f (k acc [])" by (rule assms(3)) simp
  with assms(1) show ?case by (cases "k acc []") auto
next
  case (Cons c s)
  then have c: "10 \<notin> set (c # s)" "10 \<notin> set s" by simp_all
  have 1: "k' acc ((c # s) @ 10 # F) = map_option f (k acc (c # s))" by (rule assms(3)[OF c(1)])
  from Cons.IH[OF c(2), of "acc @ [c]"] 1 show ?case by (cases "k acc (c # s)") auto
qed

lemma plus_lazy_ctx:
  assumes "\<not> P 10" "10 \<notin> set s" "s \<noteq> []"
    "\<And>acc R. 10 \<notin> set R \<Longrightarrow> k' acc (R @ 10 # F) = map_option f (k acc R)"
  shows "plus_lazy P k' (s @ 10 # F) = map_option f (plus_lazy P k s)"
proof -
  from assms(3) obtain c s' where s: "s = c # s'" by (cases s) auto
  with assms(2) have "10 \<notin> set s'" by simp
  have "star_lazy P k' [c] (s' @ 10 # F) = map_option f (star_lazy P k [c] s')"
    using assms(1) \<open>10 \<notin> set s'\<close> assms(4) by (rule star_lazy_ctx)
  with s assms(1,2) show ?thesis by simp
qed

lemma star_greedy_stop:
  assumes "list_all P w" "\<not> P x" "k (acc @ w) (x # s) = Some r"
  shows "star_greedy P k acc (w @ x # s) = Some r"
  using assms(1,3)
proof (induction w arbitrary: acc)
  case Nil
  then show ?case using assms(2) by simp
next
  case (Cons y w)
  then have "P y" "list_all P w" "k ((acc @ [y]) @ w) (x # s) = Some r" by simp_all
  from Cons.IH[OF this(2,3)] \<open>P y\<close> show ?case by simp
qed

lemma append_eq_line_split:
  assumes "h @ t = a @ 10 # F" "10 \<notin> set h"
  shows "\<exists>t'. a = h @ t' \<and> t = t' @ 10 # F"
proof -
  from assms(1) obtain us where
    "(h = a @ us \<and> us @ t = 10 # F) \<or> (h @ us = a \<and> t = us @ 10 # F)"
    by (auto simp: append_eq_append_conv2)
  then show ?thesis
  proof
    assume a: "h = a @ us \<and> us @ t = 10 # F"
    show ?thesis
    proof (cases us)
      case Nil
      with a show ?thesis by simp
    next
      case (Cons y ys)
      with a have "y = 10" by simp
      with a Cons assms(2) show ?thesis by simp
    qed
  next
    assume "h @ us = a \<and> t = us @ 10 # F"
    then show ?thesis by blast
  qed
qed

lemma tag_text_no_newline: "list_all (is_word db) e \<Longrightarrow> 10 \<notin> set (tag_text e)"
  using class_facts(6)[of db] by (auto simp: tag_text_def list_all_iff)

lemma head_text_no_newline:
  "a = 32 \<or> a = 120 \<Longrightarrow> list_all (is_word db) b \<Longrightarrow> list_all (is_digit db) c \<Longrightarrow>
   10 \<notin> set (head_text a b c)"
  using class_facts(6)[of db] class_facts(7)[of db] by (auto simp: head_text_def list_all_iff)

lemma tag_group_SomeD:
  assumes "tag_group db k s = Some r"
  shows "\<exists>ws e t. s = ws @ tag_text e @ t \<and> ws \<noteq> [] \<and> list_all (is_space db) ws \<and>
           e \<noteq> [] \<and> list_all (is_word db) e \<and> (t = [] \<or> hd t = 10) \<and> k e t = Some r"
  using tag_group_Some[OF assms] by (simp add: tag_text_def)

lemma tag_group_ctx:
  assumes "10 \<notin> set R" "\<not> tag_follows db F" "\<And>e. k' e (10 # F) = map_option f (k e [])"
  shows "tag_group db k' (R @ 10 # F) = map_option f (tag_group db k R)"
proof (cases "tag_group db k R")
  case (Some r)
  from tag_group_SomeD[OF Some] obtain ws e t where
    R: "R = ws @ tag_text e @ t" and v: "ws \<noteq> []" "list_all (is_space db) ws" "e \<noteq> []"
      "list_all (is_word db) e" and t: "t = [] \<or> hd t = 10" and k: "k e t = Some r" by blast
  from R t assms(1) have t0: "t = []" by (cases t) auto
  have "tag_group db k' (ws @ tag_text e @ 10 # F) = eol (k' e) (10 # F)"
    by (rule tag_group_eval[OF v])
  with R t0 k assms(3)[of e] Some show ?thesis by simp
next
  case None
  have "tag_group db k' (R @ 10 # F) = None"
  proof (rule ccontr)
    assume "tag_group db k' (R @ 10 # F) \<noteq> None"
    then obtain r where "tag_group db k' (R @ 10 # F) = Some r" by auto
    from tag_group_SomeD[OF this] obtain ws e t where
      s: "R @ 10 # F = ws @ tag_text e @ t" and v: "ws \<noteq> []" "list_all (is_space db) ws" "e \<noteq> []"
        "list_all (is_word db) e" and t: "t = [] \<or> hd t = 10" and k: "k' e t = Some r" by blast
    from s obtain us where
      "(R = ws @ us \<and> us @ 10 # F = tag_text e @ t) \<or> (R @ us = ws \<and> 10 # F = us @ tag_text e @ t)"
      by (auto simp: append_eq_append_conv2)
    then show False
    proof
      assume a: "R = ws @ us \<and> us @ 10 # F = tag_text e @ t"
      then have "tag_text e @ t = us @ 10 # F" by simp
      from append_eq_line_split[OF this tag_text_no_newline[OF v(4)]]
      obtain t' where t': "us = tag_text e @ t'" "t = t' @ 10 # F" by blast
      from a t' assms(1) have "10 \<notin> set t'" by simp
      with t t' have "t' = []" by (cases t') auto
      with a t' have R: "R = ws @ tag_text e @ []" and tt: "t = 10 # F" by simp_all
      have "tag_group db k (ws @ tag_text e @ []) = eol (k e) []" by (rule tag_group_eval[OF v])
      with None R have "k e [] = None" by simp
      with assms(3)[of e] k tt show False by simp
    next
      assume a: "R @ us = ws \<and> 10 # F = us @ tag_text e @ t"
      show False
      proof (cases us)
        case Nil
        with a show False by (simp add: tag_text_def)
      next
        case (Cons y ys)
        with a have F: "F = ys @ tag_text e @ t" by simp
        from a Cons v(2) have "list_all (is_space db) ys" by auto
        with F v t have "tag_follows db F" unfolding tag_follows_def by blast
        with assms(2) show False by simp
      qed
    qed
  qed
  with None show ?thesis by simp
qed

lemma eol_ctx:
  assumes "10 \<notin> set R" "k' (10 # F) = map_option f (k [])"
  shows "eol k' (R @ 10 # F) = map_option f (eol k R)"
  using assms by (cases R) auto

lemma task_tail_ctx:
  assumes "10 \<notin> set t" "\<not> list_all (is_space db) t" "\<not> tag_follows db F"
    "\<And>d e. k' d e (10 # F) = map_option f (k d e [])" "\<And>d. k d None [] \<noteq> None"
  shows "task_tail db k' (t @ 10 # F) = map_option f (task_tail db k t)"
proof -
  define KK where "KK = (\<lambda>d. opt_greedy (tag_group db (\<lambda>e. k d (Some e))) (eol (k d None)))"
  define KK' where "KK' = (\<lambda>d. opt_greedy (tag_group db (\<lambda>e. k' d (Some e))) (eol (k' d None)))"
  have rel: "KK' d (R @ 10 # F) = map_option f (KK d R)" if "10 \<notin> set R" for d R
  proof -
    have 1: "tag_group db (\<lambda>e. k' d (Some e)) (R @ 10 # F) =
             map_option f (tag_group db (\<lambda>e. k d (Some e)) R)"
      by (rule tag_group_ctx[OF that assms(3)]) (rule assms(4))
    have 2: "eol (k' d None) (R @ 10 # F) = map_option f (eol (k d None) R)"
      by (rule eol_ctx[OF that]) (rule assms(4))
    show ?thesis unfolding KK_def KK'_def opt_greedy_def 1 2
      by (cases "tag_group db (\<lambda>e. k d (Some e)) R") auto
  qed
  define ws where "ws = takeWhile (is_space db) t"
  define r where "r = dropWhile (is_space db) t"
  have t: "t = ws @ r" by (simp add: ws_def r_def)
  have wsP: "list_all (is_space db) ws"
    unfolding ws_def list_all_iff using set_takeWhileD by fastforce
  from assms(2) have "r \<noteq> []" unfolding r_def by (auto simp: list_all_iff)
  then obtain x r' where r: "r = x # r'" by (cases r) auto
  have x: "\<not> is_space db x" using r hd_dropWhile[of "is_space db" t] unfolding r_def by auto
  from assms(1) t have r10: "10 \<notin> set r" by simp
  have dot: "list_all (\<lambda>x. x \<noteq> 10) r" using r10 by (auto simp: list_all_iff)
  have kk: "KK r [] \<noteq> None"
    unfolding KK_def opt_greedy_def using assms(5) by (auto split: option.splits)
  have "plus_lazy (\<lambda>x. x \<noteq> 10) KK r \<noteq> None"
    using \<open>r \<noteq> []\<close> dot kk by (rule plus_lazy_complete)
  then obtain r0 where iso: "plus_lazy (\<lambda>x. x \<noteq> 10) KK r = Some r0" by auto
  have "plus_lazy (\<lambda>x. x \<noteq> 10) KK' (r @ 10 # F) = map_option f (plus_lazy (\<lambda>x. x \<noteq> 10) KK r)"
    by (rule plus_lazy_ctx[OF _ r10 \<open>r \<noteq> []\<close>]) (simp, rule rel)
  with iso have ctx: "plus_lazy (\<lambda>x. x \<noteq> 10) KK' (r @ 10 # F) = Some (f r0)" by simp
  have a: "star_greedy (is_space db) (\<lambda>_. plus_lazy (\<lambda>x. x \<noteq> 10) KK) [] (ws @ x # r') = Some r0"
    by (rule star_greedy_stop[OF wsP x]) (use iso r in simp)
  have b: "star_greedy (is_space db) (\<lambda>_. plus_lazy (\<lambda>x. x \<noteq> 10) KK') [] (ws @ x # r' @ 10 # F) = Some (f r0)"
    by (rule star_greedy_stop[OF wsP x]) (use ctx r in simp)
  show ?thesis
    unfolding task_tail_def using a b t r by (simp add: KK_def KK'_def)
qed

lemma ends_here_suffix:
  assumes "ends_here db s" "suffix s l"
  shows "ends_after_colon db l"
proof -
  from assms(1) obtain a b c t where s: "s = head_text a b c @ t"
    and v: "a = 32 \<or> a = 120" "b \<noteq> []" "list_all (is_word db) b" "c \<noteq> []" "list_all (is_digit db) c"
    and t: "list_all (is_space db) t" unfolding ends_here_def by blast
  have "task_head db (\<lambda>a b c t. if list_all (is_space db) t then Some () else None) s = Some ()"
    unfolding s task_head_eval[OF v] using t by simp
  moreover have "s \<in> set (suffixes l)" using assms(2) by (simp add: in_set_suffixes)
  ultimately show ?thesis unfolding ends_after_colon_def list_ex_iff by force
qed

lemma task_pattern_newline: "task_pattern db (10 # F) = None"
  by (simp add: task_pattern_def task_head_def)

lemma task_pattern_ctx:
  assumes "10 \<notin> set s" "\<not> ends_here db s" "\<not> tag_follows db F"
  shows "task_pattern db (s @ 10 # F) = map_option (apsnd (\<lambda>r. r @ 10 # F)) (task_pattern db s)"
proof (cases "\<exists>a b c t. s = head_text a b c @ t \<and> (a = 32 \<or> a = 120) \<and>
                b \<noteq> [] \<and> list_all (is_word db) b \<and> c \<noteq> [] \<and> list_all (is_digit db) c")
  case True
  then obtain a b c t where s: "s = head_text a b c @ t"
    and v: "a = 32 \<or> a = 120" "b \<noteq> []" "list_all (is_word db) b" "c \<noteq> []" "list_all (is_digit db) c"
    by blast
  from s assms(1) have t10: "10 \<notin> set t" by simp
  from s v assms(2) have tsp: "\<not> list_all (is_space db) t" unfolding ends_here_def by blast
  define K :: "ustr \<Rightarrow> ustr option \<Rightarrow> ustr \<Rightarrow> (rmatch \<times> ustr) option"
    where "K = (\<lambda>d e rest.
       Some (\<lparr>group1 = a, group2 = b, group3 = c, group4 = d, group5 = e\<rparr>, rest))"
  have 1: "task_pattern db s = task_tail db K t"
    unfolding task_pattern_def s task_head_eval[OF v] K_def ..
  have "task_pattern db (head_text a b c @ t @ 10 # F) = task_tail db K (t @ 10 # F)"
    unfolding task_pattern_def task_head_eval[OF v] K_def ..
  then have 2: "task_pattern db (s @ 10 # F) = task_tail db K (t @ 10 # F)" by (simp add: s)
  have "task_tail db K (t @ 10 # F) = map_option (apsnd (\<lambda>r. r @ 10 # F)) (task_tail db K t)"
    by (rule task_tail_ctx[OF t10 tsp assms(3)]) (simp_all add: K_def)
  with 1 2 show ?thesis by simp
next
  case False
  have iso: "task_pattern db s = None"
  proof (rule ccontr)
    assume "task_pattern db s \<noteq> None"
    then obtain m rest where "task_pattern db s = Some (m, rest)" by auto
    from task_pattern_spec[OF this] False show False unfolding spec_task_line_def by blast
  qed
  have "task_pattern db (s @ 10 # F) = None"
  proof (rule ccontr)
    assume "task_pattern db (s @ 10 # F) \<noteq> None"
    then obtain m rest where "task_pattern db (s @ 10 # F) = Some (m, rest)" by auto
    from task_pattern_spec[OF this] obtain a b c t where
      e: "head_text a b c @ t = s @ 10 # F"
      and v: "a = 32 \<or> a = 120" "b \<noteq> []" "list_all (is_word db) b" "c \<noteq> []" "list_all (is_digit db) c"
      unfolding spec_task_line_def by auto
    from append_eq_line_split[OF e head_text_no_newline[OF v(1,3,5)]]
    obtain t' where "s = head_text a b c @ t'" by blast
    with v False show False by blast
  qed
  with iso show ?thesis by simp
qed

lemma finditer_newline: "finditer db (10 # F) = finditer db F"
  by (simp add: finditer.simps[of db "10 # F"] task_pattern_newline)

lemma finditer_ctx:
  assumes "10 \<notin> set s" "\<And>s'. suffix s' s \<Longrightarrow> \<not> ends_here db s'" "\<not> tag_follows db F"
  shows "finditer db (s @ 10 # F) = finditer db s @ finditer db F"
  using assms(1,2)
proof (induction s)
  case Nil
  then show ?case by (simp add: finditer_newline finditer_Nil)
next
  case (Cons c s)
  have here: "\<not> ends_here db (c # s)" by (rule Cons.prems(2)) simp
  have ctx: "task_pattern db ((c # s) @ 10 # F) =
             map_option (apsnd (\<lambda>r. r @ 10 # F)) (task_pattern db (c # s))"
    by (rule task_pattern_ctx[OF Cons.prems(1) here assms(3)])
  show ?case
  proof (cases "task_pattern db (c # s)")
    case None
    have ih: "finditer db (s @ 10 # F) = finditer db s @ finditer db F"
    proof (rule Cons.IH)
      show "10 \<notin> set s" using Cons.prems(1) by simp
      show "\<not> ends_here db s'" if "suffix s' s" for s'
        by (rule Cons.prems(2)) (use that in \<open>simp add: suffix_Cons\<close>)
    qed
    from None ctx have "task_pattern db (c # s @ 10 # F) = None" by simp
    with None ih show ?thesis
      by (simp add: finditer.simps[of db "c # s"] finditer.simps[of db "c # s @ 10 # F"])
  next
    case (Some r)
    obtain m rest where r: "r = (m, rest)" by (cases r)
    from task_pattern_rest_line[OF Some[unfolded r] Cons.prems(1)] have rest: "rest = []" .
    from Some r rest ctx have "task_pattern db (c # s @ 10 # F) = Some (m, 10 # F)" by simp
    with Some r rest show ?thesis
      by (simp add: finditer.simps[of db "c # s"] finditer.simps[of db "c # s @ 10 # F"]
          finditer_newline finditer_Nil)
  qed
qed

subsection \<open>The lines of a text\<close>

lemma split_lines_not_Nil: "split_lines s \<noteq> []"
  by (induction s) (auto split: list.splits)

lemma split_lines_line: "10 \<notin> set l \<Longrightarrow> split_lines l = [l]"
  by (induction l) auto

lemma split_lines_append: "10 \<notin> set l \<Longrightarrow> split_lines (l @ 10 # F) = l # split_lines F"
  by (induction l) auto

lemma split_lines_no_newline: "l \<in> set (split_lines s) \<Longrightarrow> 10 \<notin> set l"
proof (induction s arbitrary: l)
  case Nil
  then show ?case by simp
next
  case (Cons c s)
  obtain l0 ls where sl: "split_lines s = l0 # ls"
    using split_lines_not_Nil[of s] by (cases "split_lines s") auto
  show ?case
  proof (cases "c = 10")
    case True
    with Cons show ?thesis by auto
  next
    case False
    with Cons.prems sl have "l = c # l0 \<or> l \<in> set ls" by simp
    then show ?thesis
    proof
      assume "l = c # l0"
      moreover have "10 \<notin> set l0" by (rule Cons.IH) (simp add: sl)
      ultimately show ?thesis using False by simp
    next
      assume "l \<in> set ls"
      then show ?thesis by (intro Cons.IH) (simp add: sl)
    qed
  qed
qed

lemma only_a_tag_intro:
  assumes "list_all (is_space db) ws" "e \<noteq> []" "list_all (is_word db) e"
  shows "only_a_tag db (ws @ tag_text e)"
proof -
  have 1: "dropWhile (is_space db) (ws @ 91 # e @ [93]) = 91 # e @ [93]"
    using assms(1) class_facts(3)[of db] by (induction ws) auto
  have 2: "takeWhile (is_word db) (e @ [93]) = e" "dropWhile (is_word db) (e @ [93]) = [93]"
    using assms(3) class_facts(4)[of db] by (induction e) auto
  show ?thesis unfolding only_a_tag_def tag_text_def using 1 2 assms(2) by simp
qed

lemma only_a_tag_space: "is_space db c \<Longrightarrow> only_a_tag db l \<Longrightarrow> only_a_tag db (c # l)"
  by (simp add: only_a_tag_def)

lemma tag_follows_line:
  assumes "tag_follows db F"
  shows "\<exists>l \<in> set (split_lines F). only_a_tag db l"
proof -
  from assms obtain ws e T where F: "F = ws @ tag_text e @ T" and ws: "list_all (is_space db) ws"
    and e: "e \<noteq> []" "list_all (is_word db) e" and T: "T = [] \<or> hd T = 10"
    unfolding tag_follows_def by blast
  have tag: "only_a_tag db (tag_text e)"
    using only_a_tag_intro[of db "[]" e] e by simp
  have base: "\<exists>l \<in> set (split_lines (tag_text e @ T)). only_a_tag db l"
  proof (cases T)
    case Nil
    with tag split_lines_line[OF tag_text_no_newline[OF e(2)]] show ?thesis by simp
  next
    case (Cons y T')
    with T have "T = 10 # T'" by simp
    with tag split_lines_append[OF tag_text_no_newline[OF e(2)], of T'] show ?thesis by simp
  qed
  have "\<exists>l \<in> set (split_lines (ws @ tag_text e @ T)). only_a_tag db l" using ws
  proof (induction ws)
    case Nil
    with base show ?case by simp
  next
    case (Cons c ws)
    then have c: "is_space db c" and "list_all (is_space db) ws" by simp_all
    from Cons.IH[OF this(2)] obtain l where
      l: "l \<in> set (split_lines (ws @ tag_text e @ T))" "only_a_tag db l" by blast
    obtain l0 ls where sl: "split_lines (ws @ tag_text e @ T) = l0 # ls"
      using split_lines_not_Nil[of "ws @ tag_text e @ T"]
      by (cases "split_lines (ws @ tag_text e @ T)") auto
    show ?case
    proof (cases "c = 10")
      case True
      with l show ?thesis by auto
    next
      case False
      from l sl have "l = l0 \<or> l \<in> set ls" by simp
      then show ?thesis
      proof
        assume "l = l0"
        with l(2) c have "only_a_tag db (c # l0)" by (simp add: only_a_tag_space)
        with False sl show ?thesis by simp
      next
        assume "l \<in> set ls"
        with l(2) False sl show ?thesis by auto
      qed
    qed
  qed
  with F show ?thesis by simp
qed

lemma finditer_lines:
  assumes "\<forall>l \<in> set (split_lines content). \<not> ends_after_colon db l"
    and "\<forall>l \<in> set (tl (split_lines content)). \<not> only_a_tag db l"
  shows "finditer db content = concat (map (finditer db) (split_lines content))"
  using assms
proof (induction "length content" arbitrary: content rule: less_induct)
  case less
  show ?case
  proof (cases "10 \<in> set content")
    case False
    then show ?thesis by (simp add: split_lines_line)
  next
    case True
    then obtain l F where c: "content = l @ 10 # F" and l: "10 \<notin> set l"
      by (auto dest: split_list_first)
    have sl: "split_lines content = l # split_lines F"
      unfolding c by (rule split_lines_append[OF l])
    have nf: "\<not> tag_follows db F"
      using tag_follows_line[of db F] less.prems(2) sl by auto
    have ne: "\<not> ends_here db s'" if "suffix s' l" for s'
      using ends_here_suffix[OF _ that] less.prems(1) sl by auto
    have 1: "finditer db content = finditer db l @ finditer db F"
      unfolding c using l ne nf by (rule finditer_ctx)
    have 2: "finditer db F = concat (map (finditer db) (split_lines F))"
    proof (rule less.hyps)
      show "length F < length content" by (simp add: c)
      show "\<forall>l \<in> set (split_lines F). \<not> ends_after_colon db l" using less.prems(1) sl by simp
      show "\<forall>l \<in> set (tl (split_lines F)). \<not> only_a_tag db l"
        using less.prems(2) sl by (auto dest: list.set_sel(2)[OF split_lines_not_Nil])
    qed
    from 1 2 sl show ?thesis by simp
  qed
qed

text \<open>
  Claim C2, as stated, fails: the pattern is not anchored at the start of a line, so a
  line that has other text before the task yields a record although it has not the shape.
\<close>

theorem task_line_shape_counterexample:
  "parse_task_file ascii (u ''TASKS-A.md'', File (Some noted_task)) =
     Inr [\<lparr>task_id = u ''TASK-A-1'', prd_id = u ''A'', description = u ''write the report'',
           status = u ''done'', file_name = u ''TASKS-A.md''\<rparr>] \<and>
   split_lines noted_task = [noted_task] \<and>
   \<not> spec_task_line ascii noted_task"
proof -
  have 1: "parse_task_file ascii (u ''TASKS-A.md'', File (Some noted_task)) =
     Inr [\<lparr>task_id = u ''TASK-A-1'', prd_id = u ''A'', description = u ''write the report'',
           status = u ''done'', file_name = u ''TASKS-A.md''\<rparr>]"
    by code_simp
  have 2: "split_lines noted_task = [noted_task]" by code_simp
  have 3: "\<not> spec_task_line ascii noted_task"
    by (simp add: spec_task_line_def head_text_def noted_task_def)
  from 1 2 3 show ?thesis by blast
qed

lemma auth_tasks_lines:
  "split_lines auth_tasks =
     [u ''- [x] TASK-AUTH-001: Implement login'',
      u ''- [ ] TASK-AUTH-002: Add password reset [blocked]'', []]"
  by code_simp

text \<open>
  Claim C2, amended. In a text where no line has a task head followed by whitespace only
  and no line after the first is nothing but a bracketed word, the records of the text are
  the records of its lines, taken one by one in their order; a line yields at most one
  record, and it yields one exactly when some part of it, from any position up to its end,
  has the shape \<open>- [ ] TASK-<PRD_ID>-<NUMBER>:\<close> or \<open>- [x] TASK-<PRD_ID>-<NUMBER>:\<close>
  followed by at least one character. Every other line contributes nothing.
\<close>

theorem task_lines:
  assumes "\<forall>l \<in> set (split_lines content). \<not> ends_after_colon db l"
    and "\<forall>l \<in> set (tl (split_lines content)). \<not> only_a_tag db l"
  shows "parse_task_file db (name, File (Some content)) =
           Inr (concat (map (\<lambda>l. map (task_of_match db name) (finditer db l)) (split_lines content))) \<and>
         (\<forall>l \<in> set (split_lines content).
            length (finditer db l) \<le> 1 \<and>
            (finditer db l \<noteq> [] \<longleftrightarrow> (\<exists>pre suf. l = pre @ suf \<and> spec_task_line db suf)))"
proof -
  have "parse_task_file db (name, File (Some content)) =
           Inr (map (task_of_match db name) (concat (map (finditer db) (split_lines content))))"
    unfolding parse_task_file_def using finditer_lines[OF assms] by simp
  then have 1: "parse_task_file db (name, File (Some content)) =
           Inr (concat (map (\<lambda>l. map (task_of_match db name) (finditer db l)) (split_lines content)))"
    by (simp add: map_concat comp_def)
  have 2: "length (finditer db l) \<le> 1 \<and>
            (finditer db l \<noteq> [] \<longleftrightarrow> (\<exists>pre suf. l = pre @ suf \<and> spec_task_line db suf))"
    if "l \<in> set (split_lines content)" for l
    using finditer_line_le1[of l db] finditer_line_iff[of l db] split_lines_no_newline[OF that]
    by blast
  from 1 2 show ?thesis by blast
qed

theorem task_lines_witness:
  "split_lines auth_tasks =
     [u ''- [x] TASK-AUTH-001: Implement login'',
      u ''- [ ] TASK-AUTH-002: Add password reset [blocked]'', []] \<and>
   \<not> ends_after_colon ascii (u ''- [x] TASK-AUTH-001: Implement login'') \<and>
   \<not> ends_after_colon ascii (u ''- [ ] TASK-AUTH-002: Add password reset [blocked]'') \<and>
   \<not> ends_after_colon ascii [] \<and>
   \<not> only_a_tag ascii (u ''- [ ] TASK-AUTH-002: Add password reset [blocked]'') \<and>
   \<not> only_a_tag ascii [] \<and>
   parse_task_file ascii (u ''TASKS-AUTH.md'', File (Some auth_tasks)) =
     Inr (map (task_of_match ascii (u ''TASKS-AUTH.md''))
            (finditer ascii (u ''- [x] TASK-AUTH-001: Implement login'')) @
          map (task_of_match ascii (u ''TASKS-AUTH.md''))
            (finditer ascii (u ''- [ ] TASK-AUTH-002: Add password reset [blocked]'')) @
          map (task_of_match ascii (u ''TASKS-AUTH.md'')) (finditer ascii [])) \<and>
   finditer ascii [] = [] \<and>
   (\<exists>pre suf. u ''- [x] TASK-AUTH-001: Implement login'' = pre @ suf \<and> spec_task_line ascii suf)"
proof -
  have e: "\<not> ends_after_colon ascii (u ''- [x] TASK-AUTH-001: Implement login'')"
    "\<not> ends_after_colon ascii (u ''- [ ] TASK-AUTH-002: Add password reset [blocked]'')"
    "\<not> ends_after_colon ascii []"
    by code_simp+
  have t: "\<not> only_a_tag ascii (u ''- [ ] TASK-AUTH-002: Add password reset [blocked]'')"
    "\<not> only_a_tag ascii []"
    by code_simp+
  have h1: "\<forall>l \<in> set (split_lines auth_tasks). \<not> ends_after_colon ascii l"
    unfolding auth_tasks_lines using e by simp
  have h2: "\<forall>l \<in> set (tl (split_lines auth_tasks)). \<not> only_a_tag ascii l"
    unfolding auth_tasks_lines using t by simp
  have f: "finditer ascii (u ''- [x] TASK-AUTH-001: Implement login'') \<noteq> []" by code_simp
  note th = task_lines[OF h1 h2, of "u ''TASKS-AUTH.md''", unfolded auth_tasks_lines]
  from th have p: "parse_task_file ascii (u ''TASKS-AUTH.md'', File (Some auth_tasks)) =
     Inr (map (task_of_match ascii (u ''TASKS-AUTH.md''))
            (finditer ascii (u ''- [x] TASK-AUTH-001: Implement login'')) @
          map (task_of_match ascii (u ''TASKS-AUTH.md''))
            (finditer ascii (u ''- [ ] TASK-AUTH-002: Add password reset [blocked]'')) @
          map (task_of_match ascii (u ''TASKS-AUTH.md'')) (finditer ascii []))"
    by simp
  from th f have s: "\<exists>pre suf. u ''- [x] TASK-AUTH-001: Implement login'' = pre @ suf \<and>
      spec_task_line ascii suf" by simp
  from auth_tasks_lines e t p s finditer_Nil[of ascii] show ?thesis by blast
qed

text \<open>
  A task line with whitespace only after the colon, when it is the whole text, yields one
  record with the empty description.
\<close>

lemma task_pattern_blank:
  assumes "a = 32 \<or> a = 120" "b \<noteq> []" "list_all (is_word db) b" "c \<noteq> []" "list_all (is_digit db) c"
    "ws \<noteq> []" "list_all (is_space db) ws" "10 \<notin> set ws"
  shows "task_pattern db (head_text a b c @ ws) =
           Some (\<lparr>group1 = a, group2 = b, group3 = c, group4 = [last ws], group5 = None\<rparr>, [])"
proof -
  define K :: "ustr \<Rightarrow> ustr option \<Rightarrow> ustr \<Rightarrow> (rmatch \<times> ustr) option"
    where "K = (\<lambda>d e rest.
       Some (\<lparr>group1 = a, group2 = b, group3 = c, group4 = d, group5 = e\<rparr>, rest))"
  define G where "G = plus_lazy (\<lambda>x. x \<noteq> 10)
      (\<lambda>d. opt_greedy (tag_group db (\<lambda>e. K d (Some e))) (eol (K d None)))"
  have g0: "G [] = None" by (simp add: G_def)
  have g1: "G [x] = K [x] None []" if "x \<noteq> 10" for x
    using that by (simp add: G_def opt_greedy_def tag_group_def)
  have "star_greedy (is_space db) (\<lambda>_. G) acc ws = K [last ws] None []" for acc
    using assms(6,7,8)
  proof (induction ws arbitrary: acc)
    case Nil
    then show ?case by simp
  next
    case (Cons x ws)
    show ?case
    proof (cases ws)
      case Nil
      with Cons.prems g0 g1[of x] show ?thesis by simp
    next
      case (Cons y ys)
      with Cons.prems have "ws \<noteq> []" "list_all (is_space db) ws" "10 \<notin> set ws" by simp_all
      from Cons.IH[OF this, of "acc @ [x]"] Cons Cons.prems show ?thesis by (simp add: K_def)
    qed
  qed
  then have "task_tail db K ws = K [last ws] None []"
    by (simp add: task_tail_def G_def)
  then show ?thesis
    unfolding task_pattern_def task_head_eval[OF assms(1-5)] K_def .
qed

lemma blank_description_alone:
  assumes "a = 32 \<or> a = 120" "b \<noteq> []" "list_all (is_word db) b" "c \<noteq> []" "list_all (is_digit db) c"
    "ws \<noteq> []" "list_all (is_space db) ws" "10 \<notin> set ws"
  shows "parse_task_file db (name, File (Some (head_text a b c @ ws))) =
           Inr [\<lparr>task_id = u ''TASK-'' @ b @ u ''-'' @ c, prd_id = b, description = [],
                 status = (if a = 120 then u ''done'' else u ''pending''), file_name = name\<rparr>]"
proof -
  have "is_space db (last ws)" using assms(6,7) by (simp add: list_all_iff)
  then have s: "strip db [last ws] = []" by (simp add: strip_def)
  have "finditer db (head_text a b c @ ws) =
          [\<lparr>group1 = a, group2 = b, group3 = c, group4 = [last ws], group5 = None\<rparr>]"
    by (simp add: finditer.simps[of db "head_text a b c @ ws"] task_pattern_blank[OF assms] finditer_Nil)
  then show ?thesis
    by (simp add: parse_task_file_def task_of_match_def py_or_def Let_def s)
qed

text \<open>
  Claim C10. The same line followed by another line does not yield the empty description:
  \<open>\s*\<close> runs over the line feed, the description is taken from the next line, and the
  task of that line is lost.
\<close>

theorem blank_description_swallows_next_line:
  "parse_task_file ascii (u ''TASKS-A.md'', File (Some blank_then_task)) =
     Inr [\<lparr>task_id = u ''TASK-A-1'', prd_id = u ''A'', description = u ''- [ ] TASK-A-2: bar'',
           status = u ''pending'', file_name = u ''TASKS-A.md''\<rparr>]"
  by code_simp


subsection \<open>A tag at the end of a line\<close>

text \<open>
  Where a description that neither starts nor ends with whitespace is followed, on its
  line, by whitespace and a bracketed word that ends the line, the optional group takes
  part: the status of the record is that word and the description is left as it is.
\<close>

lemma star_lazy_skip:
  assumes "list_all P w" "\<And>n. n < length w \<Longrightarrow> k (acc @ take n w) (drop n w @ s) = None"
  shows "star_lazy P k acc (w @ s) = star_lazy P k (acc @ w) s"
  using assms
proof (induction w arbitrary: acc)
  case Nil
  then show ?case by simp
next
  case (Cons x w)
  from Cons.prems(2)[of 0] have 0: "k acc (x # w @ s) = None" by simp
  have "star_lazy P k (acc @ [x]) (w @ s) = star_lazy P k ((acc @ [x]) @ w) s"
  proof (rule Cons.IH)
    show "list_all P w" using Cons.prems(1) by simp
    show "k ((acc @ [x]) @ take n w) (drop n w @ s) = None" if "n < length w" for n
      using Cons.prems(2)[of "Suc n"] that by simp
  qed
  with 0 Cons.prems(1) show ?case by simp
qed

lemma star_lazy_first: "k acc s = Some r \<Longrightarrow> star_lazy P k acc s = Some r"
  by (cases s) auto

lemma append_eq_append_cases:
  "xs @ ys = zs @ ts \<Longrightarrow> (\<exists>us. xs = zs @ us \<and> us @ ys = ts) \<or> (\<exists>us. xs @ us = zs \<and> ys = us @ ts)"
  by (auto simp: append_eq_append_conv2)

lemma no_tag_inside:
  assumes "tag_group db k (r @ sp @ tag_text e @ T) = Some x"
    "r \<noteq> []" "\<not> is_space db (last r)" "10 \<notin> set r" "10 \<notin> set sp"
  shows False
proof -
  from tag_group_SomeD[OF assms(1)] obtain ws1 e' T' where
    eq: "r @ sp @ tag_text e @ T = ws1 @ tag_text e' @ T'" and ws1: "ws1 \<noteq> []" "list_all (is_space db) ws1"
    and e': "list_all (is_word db) e'" and T': "T' = [] \<or> hd T' = 10" by blast
  from append_eq_append_cases[OF eq] obtain us where
    "(r = ws1 @ us \<and> us @ sp @ tag_text e @ T = tag_text e' @ T') \<or>
     (r @ us = ws1 \<and> sp @ tag_text e @ T = us @ tag_text e' @ T')"
    by blast
  then show False
  proof
    assume "r @ us = ws1 \<and> sp @ tag_text e @ T = us @ tag_text e' @ T'"
    with ws1(2) assms(2) have "is_space db (last r)" by (auto simp: list_all_iff)
    with assms(3) show False by simp
  next
    assume a: "r = ws1 @ us \<and> us @ sp @ tag_text e @ T = tag_text e' @ T'"
    have "us \<noteq> []"
    proof
      assume "us = []"
      with a ws1 have "is_space db (last r)" by (auto simp: list_all_iff)
      with assms(3) show False by simp
    qed
    then obtain y us' where us: "us = y # us'" by (cases us) auto
    with a have y: "y = 91" and b: "e' @ 93 # T' = (us' @ sp) @ 91 # e @ 93 # T"
      by (simp_all add: tag_text_def)
    from a us assms(4,5) have X: "10 \<notin> set (us' @ sp)" by auto
    have n91: "91 \<notin> set e'" using e' class_facts(3)[of db]
      by (auto simp: list_all_iff is_word_def is_space_def split: if_splits)
    from append_eq_append_cases[OF b] obtain vs where
      "(e' = (us' @ sp) @ vs \<and> vs @ 93 # T' = 91 # e @ 93 # T) \<or>
       (e' @ vs = us' @ sp \<and> 93 # T' = vs @ 91 # e @ 93 # T)"
      by blast
    then show False
    proof
      assume c: "e' = (us' @ sp) @ vs \<and> vs @ 93 # T' = 91 # e @ 93 # T"
      show False
      proof (cases vs)
        case Nil
        with c show False by simp
      next
        case (Cons v vs')
        with c have "v = 91" by simp
        with c Cons n91 show False by simp
      qed
    next
      assume c: "e' @ vs = us' @ sp \<and> 93 # T' = vs @ 91 # e @ 93 # T"
      show False
      proof (cases vs)
        case Nil
        with c show False by simp
      next
        case (Cons v vs')
        with c have T'eq: "T' = vs' @ 91 # e @ 93 # T" by simp
        show False
        proof (cases vs')
          case Nil
          with T'eq T' show False by simp
        next
          case (Cons w ws)
          with T'eq T' have "w = 10" by simp
          moreover from c \<open>vs = v # vs'\<close> Cons have "w \<in> set (us' @ sp)"
            by (metis append_Cons in_set_conv_decomp list.set_intros(1) list.set_intros(2) set_append Un_iff)
          ultimately show False using X by simp
        qed
      qed
    qed
  qed
qed

lemma task_pattern_tagged:
  assumes "a = 32 \<or> a = 120" "b \<noteq> []" "list_all (is_word db) b" "c \<noteq> []" "list_all (is_digit db) c"
    and "list_all (is_space db) ws"
    and "d \<noteq> []" "10 \<notin> set d" "\<not> is_space db (hd d)" "\<not> is_space db (last d)"
    and "sp \<noteq> []" "list_all (is_space db) sp" "10 \<notin> set sp"
    and "e \<noteq> []" "list_all (is_word db) e"
    and "T = [] \<or> hd T = 10"
  shows "task_pattern db (head_text a b c @ ws @ d @ sp @ tag_text e @ T) =
           Some (\<lparr>group1 = a, group2 = b, group3 = c, group4 = d, group5 = Some e\<rparr>, T)"
proof -
  define K :: "ustr \<Rightarrow> ustr option \<Rightarrow> ustr \<Rightarrow> (rmatch \<times> ustr) option"
    where "K = (\<lambda>d e rest.
       Some (\<lparr>group1 = a, group2 = b, group3 = c, group4 = d, group5 = e\<rparr>, rest))"
  define KK where "KK = (\<lambda>d. opt_greedy (tag_group db (\<lambda>e. K d (Some e))) (eol (K d None)))"
  define s where "s = sp @ tag_text e @ T"
  obtain x d' where d: "d = x # d'" using assms(7) by (cases d) auto
  have dot: "list_all (\<lambda>x. x \<noteq> 10) d'" "x \<noteq> 10" using assms(8) d by (auto simp: list_all_iff)
  have fail: "KK ([x] @ take n d') (drop n d' @ s) = None" if "n < length d'" for n
  proof -
    let ?r = "drop n d'"
    have r: "?r \<noteq> []" "last ?r = last d" "10 \<notin> set ?r"
      using that d assms(8) by (auto dest: in_set_dropD)
    have 1: "tag_group db (\<lambda>e. K ([x] @ take n d') (Some e)) (?r @ s) = None"
    proof (rule ccontr)
      assume "tag_group db (\<lambda>e. K ([x] @ take n d') (Some e)) (?r @ s) \<noteq> None"
      then obtain y where "tag_group db (\<lambda>e. K ([x] @ take n d') (Some e)) (?r @ sp @ tag_text e @ T) = Some y"
        by (auto simp: s_def)
      from no_tag_inside[OF this r(1) _ r(3) assms(13)] r(2) assms(10) show False by simp
    qed
    have 2: "eol (K ([x] @ take n d') None) (?r @ s) = None"
      using r(1,3) by (cases ?r) auto
    show ?thesis unfolding KK_def opt_greedy_def 1 2 by simp
  qed
  have here: "KK d s = Some (\<lparr>group1 = a, group2 = b, group3 = c, group4 = d, group5 = Some e\<rparr>, T)"
    unfolding KK_def opt_greedy_def s_def tag_group_eval[OF assms(11,12,14,15)]
    using assms(16) by (cases T) (auto simp: K_def)
  have "star_lazy (\<lambda>x. x \<noteq> 10) KK [x] (d' @ s) = star_lazy (\<lambda>x. x \<noteq> 10) KK ([x] @ d') s"
    using dot(1) fail by (rule star_lazy_skip)
  also have "\<dots> = Some (\<lparr>group1 = a, group2 = b, group3 = c, group4 = d, group5 = Some e\<rparr>, T)"
    using here d by (intro star_lazy_first) simp
  finally have lazy: "plus_lazy (\<lambda>x. x \<noteq> 10) KK (x # d' @ s) =
      Some (\<lparr>group1 = a, group2 = b, group3 = c, group4 = d, group5 = Some e\<rparr>, T)"
    using dot(2) by simp
  have "star_greedy (is_space db) (\<lambda>_. plus_lazy (\<lambda>x. x \<noteq> 10) KK) [] (ws @ x # d' @ s) =
      Some (\<lparr>group1 = a, group2 = b, group3 = c, group4 = d, group5 = Some e\<rparr>, T)"
    by (rule star_greedy_stop[OF assms(6)]) (use assms(9) d lazy in simp_all)
  then have "task_tail db K (ws @ d @ sp @ tag_text e @ T) =
      Some (\<lparr>group1 = a, group2 = b, group3 = c, group4 = d, group5 = Some e\<rparr>, T)"
    by (simp add: task_tail_def KK_def d s_def)
  then show ?thesis
    unfolding task_pattern_def task_head_eval[OF assms(1-5)] K_def .
qed

lemma dropWhile_rev_last:
  assumes "d \<noteq> []" "\<not> P (last d)"
  shows "dropWhile P (rev d) = rev d"
  using assms by (cases d rule: rev_cases) auto

lemma strip_trimmed:
  assumes "d \<noteq> []" "\<not> is_space db (hd d)" "\<not> is_space db (last d)"
  shows "strip db d = d"
proof -
  have 1: "dropWhile (is_space db) d = d" using assms(1,2) by (cases d) auto
  have 2: "dropWhile (is_space db) (rev d) = rev d"
    using assms(1,3) by (rule dropWhile_rev_last)
  show ?thesis unfolding strip_def 1 2 by simp
qed

lemma tagged_line_record:
  assumes "a = 32 \<or> a = 120" "b \<noteq> []" "list_all (is_word db) b" "c \<noteq> []" "list_all (is_digit db) c"
    and "list_all (is_space db) ws"
    and "d \<noteq> []" "10 \<notin> set d" "\<not> is_space db (hd d)" "\<not> is_space db (last d)"
    and "sp \<noteq> []" "list_all (is_space db) sp" "10 \<notin> set sp"
    and "e \<noteq> []" "list_all (is_word db) e"
    and "T = [] \<or> hd T = 10"
  shows "parse_task_file db (name, File (Some (head_text a b c @ ws @ d @ sp @ tag_text e @ T))) =
           Inr (\<lparr>task_id = u ''TASK-'' @ b @ u ''-'' @ c, prd_id = b, description = d,
                  status = e, file_name = name\<rparr>
                # map (task_of_match db name) (finditer db T))"
proof -
  have "finditer db (head_text a b c @ ws @ d @ sp @ tag_text e @ T) =
          \<lparr>group1 = a, group2 = b, group3 = c, group4 = d, group5 = Some e\<rparr> # finditer db T"
    by (simp add: finditer.simps[of db "head_text a b c @ ws @ d @ sp @ tag_text e @ T"]
        task_pattern_tagged[OF assms])
  then show ?thesis
    using assms(14)
    by (simp add: parse_task_file_def task_of_match_def py_or_def Let_def
        strip_trimmed[OF assms(7,9,10)])
qed

end
